theory Spec2Isabelle
  imports Main
begin

section \<open>Strings and character classes\<close>

text \<open>
  A JavaScript string is a sequence of UTF-16 code units, and the regular expressions of
  the formatter (none has the \<open>u\<close> flag) work on code units. A code unit is modelled as
  a natural number, so that the whitespace class \<open>\s\<close> is the one of ECMAScript and not
  only its ASCII part. \<open>str\<close> turns an Isabelle literal into such a string.
\<close>

type_synonym jschar = nat
type_synonym jsstring = "jschar list"

definition str :: "string \<Rightarrow> jsstring" where
  "str s = map of_char s"

text \<open>
  \<open>\s\<close>: WhiteSpace (TAB, VT, FF, SP, NBSP, ZWNBSP and the other members of Unicode
  category Zs) together with LineTerminator (LF, CR, LS, PS).
\<close>

definition is_space :: "jschar \<Rightarrow> bool" where
  "is_space c \<longleftrightarrow>
     c = 9 \<or> c = 10 \<or> c = 11 \<or> c = 12 \<or> c = 13 \<or> c = 32 \<or> c = 160 \<or> c = 5760 \<or>
     (8192 \<le> c \<and> c \<le> 8202) \<or> c = 8232 \<or> c = 8233 \<or> c = 8239 \<or> c = 8287 \<or>
     c = 12288 \<or> c = 65279"

text \<open>The dot of a regular expression matches everything but a LineTerminator.\<close>

definition is_line_terminator :: "jschar \<Rightarrow> bool" where
  "is_line_terminator c \<longleftrightarrow> c = 10 \<or> c = 13 \<or> c = 8232 \<or> c = 8233"

text \<open>The class \<open>[A-Za-z0-9\-]\<close> of a trailer key.\<close>

definition is_key_char :: "jschar \<Rightarrow> bool" where
  "is_key_char c \<longleftrightarrow>
     (65 \<le> c \<and> c \<le> 90) \<or> (97 \<le> c \<and> c \<le> 122) \<or> (48 \<le> c \<and> c \<le> 57) \<or> c = 45"

text \<open>\<open>String.prototype.startsWith\<close>.\<close>

definition startsWith :: "jsstring \<Rightarrow> jsstring \<Rightarrow> bool" where
  "startsWith text p \<longleftrightarrow> take (length p) text = p"

text \<open>\<open>String.prototype.trim\<close> strips WhiteSpace and LineTerminator at both ends.\<close>

definition trim :: "jsstring \<Rightarrow> jsstring" where
  "trim s = rev (dropWhile is_space (rev (dropWhile is_space s)))"


section \<open>The regular expressions of \<open>formatter.ts\<close>\<close>

text \<open>
  Each constant is the predicate \<open>REGEX.test(text)\<close> of a regular expression without
  flags, so \<open>^\<close> and \<open>$\<close> are the two ends of the string.

  \<open>REGEX_SPLIT = /^\s*(#|$)/\<close>: after the leading whitespace comes \<open>#\<close> or the end.
\<close>

definition REGEX_SPLIT :: "jsstring \<Rightarrow> bool" where
  "REGEX_SPLIT text = (case dropWhile is_space text of [] \<Rightarrow> True | c # _ \<Rightarrow> c = 35)"

text \<open>\<open>REGEX_BLANK = /^\s*$/\<close>.\<close>

definition REGEX_BLANK :: "jsstring \<Rightarrow> bool" where
  "REGEX_BLANK text = list_all is_space text"

text \<open>\<open>REGEX_CUT_LINE = /^# ------------------------ >8 ------------------------$/\<close>.\<close>

definition cut_line :: jsstring where
  "cut_line = str ''# ------------------------ >8 ------------------------''"

definition REGEX_CUT_LINE :: "jsstring \<Rightarrow> bool" where
  "REGEX_CUT_LINE text = (text = cut_line)"

text \<open>
  \<open>REGEX_TRAILER = /^[A-Za-z0-9\-]+\s?: .+$/\<close>. A key character is neither whitespace
  nor a colon, so the key is the longest prefix of key characters, and the optional
  whitespace is taken exactly when it is there.
\<close>

definition REGEX_TRAILER :: "jsstring \<Rightarrow> bool" where
  "REGEX_TRAILER text =
     (let key = takeWhile is_key_char text;
          r = dropWhile is_key_char text;
          r' = (case r of [] \<Rightarrow> [] | c # cs \<Rightarrow> if is_space c then cs else r)
      in key \<noteq> [] \<and>
         (case r' of
            a # b # v \<Rightarrow> a = 58 \<and> b = 32 \<and> v \<noteq> [] \<and> list_all (\<lambda>c. \<not> is_line_terminator c) v
          | _ \<Rightarrow> False))"

text \<open>\<open>REGEX_TRAILER_CONT = /^\s+$/\<close>.\<close>

definition REGEX_TRAILER_CONT :: "jsstring \<Rightarrow> bool" where
  "REGEX_TRAILER_CONT text = (text \<noteq> [] \<and> list_all is_space text)"

definition GIT_GENERATED_PREFIXES :: "jsstring list" where
  "GIT_GENERATED_PREFIXES = [str ''Signed-off-by: '', str ''(cherry picked from commit '']"


section \<open>Documents, ranges and chunks\<close>

text \<open>
  A \<open>vscode.TextDocument\<close> is the list of the texts of its lines (without the line
  terminators); \<open>lineCount\<close> is its length. \<open>lineAt\<close> throws when the line does not
  exist, which is \<open>None\<close> here. The end of line sequence of the document,
  \<open>document.eol\<close>, is a line feed or a carriage return and a line feed; only
  \<open>getText\<close> reads it, so it is an argument of its own of the functions that call
  \<open>getText\<close>.
\<close>

type_synonym TextDocument = "jsstring list"

datatype EndOfLine = LF | CRLF

definition eol_text :: "EndOfLine \<Rightarrow> jsstring" where
  "eol_text eol = (case eol of LF \<Rightarrow> [10] | CRLF \<Rightarrow> [13, 10])"

record Position =
  line :: nat
  character :: nat

record Range =
  range_start :: Position
  range_end :: Position

definition lineAt :: "TextDocument \<Rightarrow> nat \<Rightarrow> jsstring option" where
  "lineAt document n = (if n < length document then Some (document ! n) else None)"

text \<open>\<open>line.range\<close> of the line \<open>n\<close> with the text \<open>text\<close>.\<close>

definition line_range :: "nat \<Rightarrow> jsstring \<Rightarrow> Range" where
  "line_range n text =
     \<lparr>range_start = \<lparr>line = n, character = 0\<rparr>,
      range_end = \<lparr>line = n, character = length text\<rparr>\<rparr>"

definition isBefore :: "Position \<Rightarrow> Position \<Rightarrow> bool" where
  "isBefore p q \<longleftrightarrow> line p < line q \<or> (line p = line q \<and> character p < character q)"

text \<open>
  \<open>new vscode.Range(start, end)\<close> swaps its arguments when the end is before the start;
  \<open>range.with(undefined, end)\<close> builds a new range from the old start and \<open>end\<close>.
\<close>

definition new_Range :: "Position \<Rightarrow> Position \<Rightarrow> Range" where
  "new_Range p q =
     (if isBefore q p then \<lparr>range_start = q, range_end = p\<rparr>
      else \<lparr>range_start = p, range_end = q\<rparr>)"

definition with_end :: "Range \<Rightarrow> Position \<Rightarrow> Range" where
  "with_end r q = new_Range (range_start r) q"

datatype GitChunkKind = Subject | Paragraph | Comment | Blank | Diff | Trailers

record GitCommitChunk =
  chunk_range :: Range
  kind :: GitChunkKind

abbreviation startLine :: "GitCommitChunk \<Rightarrow> nat" where
  "startLine c \<equiv> line (range_start (chunk_range c))"

abbreviation endLine :: "GitCommitChunk \<Rightarrow> nat" where
  "endLine c \<equiv> line (range_end (chunk_range c))"

text \<open>
  \<open>document.getText(range)\<close>: the text between the two positions, the lines joined by
  the end of line sequence of the document. A line that does not exist contributes the
  empty text (the editor clamps the range to the document). \<open>document.getText()\<close> is
  the text of all lines, joined in the same way.
\<close>

definition line_or_empty :: "TextDocument \<Rightarrow> nat \<Rightarrow> jsstring" where
  "line_or_empty document n = (if n < length document then document ! n else [])"

definition getText :: "EndOfLine \<Rightarrow> TextDocument \<Rightarrow> Range \<Rightarrow> jsstring" where
  "getText eol document r =
     (let sl = line (range_start r); sc = character (range_start r);
          el = line (range_end r); ec = character (range_end r)
      in if sl = el then take (ec - sc) (drop sc (line_or_empty document sl))
         else drop sc (line_or_empty document sl) @
              concat (map (\<lambda>n. eol_text eol @ line_or_empty document n) [Suc sl ..< el]) @
              eol_text eol @ take ec (line_or_empty document el))"



section \<open>\<open>isTrailersChunk\<close>\<close>

record trailer_state =
  first_line :: bool
  recognized_prefix :: bool
  trailers :: nat
  non_trailers :: nat
  possible_continuation :: bool

definition trailer_init :: trailer_state where
  "trailer_init =
     \<lparr>first_line = True, recognized_prefix = False, trailers = 0, non_trailers = 0,
      possible_continuation = False\<rparr>"

text \<open>
  One pass of the loop body on the text of a line: \<open>Inl b\<close> is \<open>return b\<close>, \<open>Inr st\<close>
  is the state at the next iteration (every \<open>continue\<close> and the end of the body).
\<close>

definition trailer_body :: "jsstring \<Rightarrow> trailer_state \<Rightarrow> bool + trailer_state" where
  "trailer_body text st =
     (let st1 = (if first_line st
                 then st\<lparr>first_line := False,
                         recognized_prefix :=
                           recognized_prefix st \<or> list_ex (startsWith text) GIT_GENERATED_PREFIXES\<rparr>
                 else st)
      in if first_line st \<and> recognized_prefix st1 then
           Inr (st1\<lparr>trailers := trailers st1 + 1\<rparr>)
         else if possible_continuation st1 \<and> REGEX_TRAILER_CONT text then
           Inr st1
         else if REGEX_TRAILER text then
           Inr (st1\<lparr>trailers := trailers st1 + 1, possible_continuation := True\<rparr>)
         else if \<not> recognized_prefix st1 then
           Inl False
         else
           Inr (st1\<lparr>non_trailers := non_trailers st1 + 1, possible_continuation := False\<rparr>))"

definition trailer_result :: "trailer_state \<Rightarrow> bool" where
  "trailer_result st \<longleftrightarrow>
     (non_trailers st = 0 \<and> trailers st > 0) \<or>
     (recognized_prefix st \<and> 3 * trailers st \<ge> non_trailers st)"

text \<open>
  The loop \<open>for (counter = start.line; counter <= end.line; counter++)\<close> and the final
  \<open>return\<close>. \<open>None\<close> is the exception of \<open>lineAt\<close>.
\<close>

function trailer_loop :: "TextDocument \<Rightarrow> nat \<Rightarrow> nat \<Rightarrow> trailer_state \<Rightarrow> bool option" where
  "trailer_loop document counter end_line st =
     (if counter \<le> end_line then
        (case lineAt document counter of
           None \<Rightarrow> None
         | Some text \<Rightarrow>
             (case trailer_body text st of
                Inl b \<Rightarrow> Some b
              | Inr st' \<Rightarrow> trailer_loop document (Suc counter) end_line st'))
      else Some (trailer_result st))"
  by pat_completeness auto
termination
  by (relation "measure (\<lambda>(document, counter, end_line, st). Suc end_line - counter)") auto

declare trailer_loop.simps [simp del]

definition isTrailersChunk :: "GitCommitChunk \<Rightarrow> TextDocument \<Rightarrow> bool option" where
  "isTrailersChunk chunk document =
     trailer_loop document (startLine chunk) (endLine chunk) trailer_init"


section \<open>\<open>getDocumentChunks\<close>\<close>

record scan_state =
  chunks :: "GitCommitChunk list"
  lastKind :: GitChunkKind
  hadInitialLine :: bool
  hadSubjectLine :: bool
  hadCutLine :: bool
  areInDiff :: bool

text \<open>The state before the loop; the array holds the fake initial chunk.\<close>

definition fake_chunk :: GitCommitChunk where
  "fake_chunk =
     \<lparr>chunk_range = new_Range \<lparr>line = 0, character = 0\<rparr> \<lparr>line = 0, character = 0\<rparr>,
      kind = Blank\<rparr>"

definition scan_init :: scan_state where
  "scan_init =
     \<lparr>chunks = [fake_chunk], lastKind = Blank, hadInitialLine = False,
      hadSubjectLine = False, hadCutLine = False, areInDiff = False\<rparr>"

text \<open>
  The body of the loop for the line \<open>counter\<close> with the text \<open>text\<close>. Writing to
  \<open>chunks[chunks.length - 1].range\<close> throws when the array is empty, which is \<open>None\<close>.
\<close>

definition scan_body :: "nat \<Rightarrow> jsstring \<Rightarrow> scan_state \<Rightarrow> scan_state option" where
  "scan_body counter text st =
     (let kind0 = (if REGEX_BLANK text then Blank
                   else if REGEX_SPLIT text then Comment else Paragraph);
          cut = (hadCutLine st \<or>
                 (\<not> REGEX_BLANK text \<and> REGEX_SPLIT text \<and> REGEX_CUT_LINE text));
          diff = (areInDiff st \<or> (cut \<and> \<not> REGEX_SPLIT text));
          kind1 = (if diff then Diff else kind0);
          st1 = st\<lparr>hadCutLine := cut, areInDiff := diff\<rparr>
      in if kind1 = lastKind st then
           (if chunks st = [] then None
            else Some (st1\<lparr>hadInitialLine := True,
                           chunks := butlast (chunks st) @
                             [(last (chunks st))\<lparr>chunk_range :=
                                with_end (chunk_range (last (chunks st)))
                                         (range_end (line_range counter text))\<rparr>]\<rparr>))
         else
           (let popped = (if \<not> hadInitialLine st then butlast (chunks st) else chunks st);
                kind2 = (if kind1 = Paragraph \<and> \<not> hadSubjectLine st then Subject else kind1)
            in Some (st1\<lparr>hadInitialLine := True,
                          lastKind := kind1,
                          hadSubjectLine := (hadSubjectLine st \<or> kind1 = Paragraph),
                          chunks := popped @
                            [\<lparr>chunk_range = line_range counter text, kind = kind2\<rparr>]\<rparr>)))"

function scan_loop :: "TextDocument \<Rightarrow> nat \<Rightarrow> scan_state \<Rightarrow> scan_state option" where
  "scan_loop document counter st =
     (if counter < length document then
        (case scan_body counter (document ! counter) st of
           None \<Rightarrow> None
         | Some st' \<Rightarrow> scan_loop document (Suc counter) st')
      else Some st)"
  by pat_completeness auto
termination
  by (relation "measure (\<lambda>(document, counter, st). length document - counter)") auto

declare scan_loop.simps [simp del]

text \<open>\<open>Array.prototype.lastIndexOf\<close>, with \<open>None\<close> for \<open>-1\<close>.\<close>

primrec lastIndexOf :: "'a list \<Rightarrow> 'a \<Rightarrow> nat option" where
  "lastIndexOf [] x = None"
| "lastIndexOf (y # ys) x =
     (case lastIndexOf ys x of
        Some i \<Rightarrow> Some (Suc i)
      | None \<Rightarrow> if y = x then Some 0 else None)"

text \<open>The array \<open>chunks\<close> when the loop is over.\<close>

definition scan_chunks :: "TextDocument \<Rightarrow> GitCommitChunk list option" where
  "scan_chunks document =
     (case scan_loop document 0 scan_init of
        None \<Rightarrow> None
      | Some st \<Rightarrow> Some (chunks st))"

text \<open>
  After the loop, the last chunk of kind Paragraph is made a Trailers chunk when
  \<open>isTrailersChunk\<close> says so. \<open>chunks[-1]\<close> is \<open>undefined\<close>, which is falsy.
\<close>

definition getDocumentChunks :: "TextDocument \<Rightarrow> GitCommitChunk list option" where
  "getDocumentChunks document =
     (case scan_chunks document of
        None \<Rightarrow> None
      | Some cs \<Rightarrow>
          (case lastIndexOf (map kind cs) Paragraph of
             None \<Rightarrow> Some cs
           | Some i \<Rightarrow>
               (case isTrailersChunk (cs ! i) document of
                  None \<Rightarrow> None
                | Some b \<Rightarrow>
                    Some (if b then cs[i := (cs ! i)\<lparr>kind := Trailers\<rparr>] else cs))))"


section \<open>Formatting a chunk\<close>

text \<open>
  \<open>text.replace(/\s+/g, ' ')\<close>: every maximal run of whitespace becomes one space.
\<close>

function replace_spaces :: "jsstring \<Rightarrow> jsstring" where
  "replace_spaces [] = []"
| "replace_spaces (c # cs) =
     (if is_space c then 32 # replace_spaces (dropWhile is_space cs)
      else c # replace_spaces cs)"
  by pat_completeness auto
termination
  by (relation "measure length") (auto simp: length_dropWhile_le le_imp_less_Suc)

definition formatSubjectChunk :: "jsstring \<Rightarrow> jsstring" where
  "formatSubjectChunk text = trim (replace_spaces text)"

text \<open>
  The regular expression \<open>/(?![^\n]{1,72}$)([^\n]{1,72})\s/g\<close> at the start of
  \<open>rest\<close>, the part of the string from the current index on. The lookahead forbids that
  the rest is one to 72 characters without a line feed. The group is greedy: the engine
  tries 72 characters first and gives one back at a time, so the match is the largest
  \<open>k\<close> from 72 down to 1 such that the first \<open>k\<close> characters hold no line feed and the
  character after them is whitespace. The result is that \<open>k\<close>.
\<close>

definition wrap_lookahead :: "jsstring \<Rightarrow> bool" where
  "wrap_lookahead rest \<longleftrightarrow> 1 \<le> length rest \<and> length rest \<le> 72 \<and> 10 \<notin> set rest"

definition wrap_match :: "jsstring \<Rightarrow> nat option" where
  "wrap_match rest =
     (if wrap_lookahead rest then None
      else find (\<lambda>k. k < length rest \<and> 10 \<notin> set (take k rest) \<and> is_space (rest ! k))
                (rev [1 ..< 73]))"

text \<open>
  \<open>s.replace(/(?![^\n]{1,72}$)([^\n]{1,72})\s/g, '$1\n')\<close>: where the expression
  matches, the group is kept and the whitespace after it becomes a line feed, and the
  search goes on behind the match; where it does not match, the character is kept and the
  search goes on at the next index.
\<close>

function replace_wrap :: "jsstring \<Rightarrow> jsstring" where
  "replace_wrap rest =
     (if rest = [] then []
      else (case wrap_match rest of
              Some k \<Rightarrow> take k rest @ 10 # replace_wrap (drop (Suc k) rest)
            | None \<Rightarrow> hd rest # replace_wrap (tl rest)))"
  by pat_completeness auto
termination
  by (relation "measure length") auto

declare replace_wrap.simps [simp del]

definition formatParagraphChunk :: "jsstring \<Rightarrow> jsstring" where
  "formatParagraphChunk text = replace_wrap (trim (replace_spaces text))"


section \<open>The edit list of \<open>formatGitCommitMessage\<close>\<close>

record TextEdit =
  edit_range :: Range
  newText :: jsstring

text \<open>The callback of \<open>map\<close>; \<open>None\<close> is \<open>undefined\<close>, which the \<open>filter\<close> drops.\<close>

definition chunk_edit :: "EndOfLine \<Rightarrow> TextDocument \<Rightarrow> GitCommitChunk \<Rightarrow> TextEdit option" where
  "chunk_edit eol document c =
     (let text = getText eol document (chunk_range c)
      in if kind c = Subject then
           Some \<lparr>edit_range = chunk_range c, newText = formatSubjectChunk text\<rparr>
         else if kind c = Paragraph then
           Some \<lparr>edit_range = chunk_range c, newText = formatParagraphChunk text\<rparr>
         else if kind c = Trailers then
           Some \<lparr>edit_range = chunk_range c, newText = text\<rparr>
         else if kind c = Blank then
           Some \<lparr>edit_range = chunk_range c, newText = []\<rparr>
         else None)"

definition formatGitCommitMessage :: "EndOfLine \<Rightarrow> TextDocument \<Rightarrow> TextEdit list option" where
  "formatGitCommitMessage eol document =
     (case getDocumentChunks document of
        None \<Rightarrow> None
      | Some cs \<Rightarrow> Some (List.map_filter (chunk_edit eol document) cs))"





section \<open>The whole-document formatter\<close>

text \<open>
  The older formatter works on the text of the whole document. Its \<open>REGEX_SPLIT\<close> is
  \<open>/^\s*(#|$)/g\<close>: with the \<open>g\<close> flag, \<open>test\<close> starts at the \<open>lastIndex\<close> of the
  expression object and leaves a new \<open>lastIndex\<close> behind. The object is a constant of
  the module, so its \<open>lastIndex\<close> is threaded through every function that calls
  \<open>test\<close>, and through the formatter itself.

  \<open>split_match_at text i\<close> is the matcher at the index \<open>i\<close>, giving the end index of the
  match: \<open>^\<close> holds at index 0 only.
\<close>

definition split_match_at :: "jsstring \<Rightarrow> nat \<Rightarrow> nat option" where
  "split_match_at text i =
     (if i \<noteq> 0 then None
      else (case dropWhile is_space text of
              [] \<Rightarrow> Some (length (takeWhile is_space text))
            | c # _ \<Rightarrow> if c = 35 then Some (Suc (length (takeWhile is_space text))) else None))"

text \<open>
  \<open>RegExpBuiltinExec\<close> for a global expression: beyond the end of the string the search
  fails and \<open>lastIndex\<close> becomes 0; a match sets \<open>lastIndex\<close> to its end; otherwise the
  search moves on by one index.
\<close>

function regex_test_g :: "(jsstring \<Rightarrow> nat \<Rightarrow> nat option) \<Rightarrow> jsstring \<Rightarrow> nat \<Rightarrow> bool \<times> nat" where
  "regex_test_g matcher text lastIndex =
     (if lastIndex > length text then (False, 0)
      else (case matcher text lastIndex of
              Some e \<Rightarrow> (True, e)
            | None \<Rightarrow> regex_test_g matcher text (Suc lastIndex)))"
  by pat_completeness auto
termination
  by (relation "measure (\<lambda>(matcher, text, lastIndex). Suc (length text) - lastIndex)") auto

declare regex_test_g.simps [simp del]

definition REGEX_SPLIT_g_test :: "jsstring \<Rightarrow> nat \<Rightarrow> bool \<times> nat" where
  "REGEX_SPLIT_g_test text lastIndex = regex_test_g split_match_at text lastIndex"

text \<open>\<open>text.split("\n")\<close> and \<open>lines.join('\n')\<close>.\<close>

fun split_nl :: "jsstring \<Rightarrow> jsstring list" where
  "split_nl [] = [[]]"
| "split_nl (c # cs) =
     (if c = 10 then [] # split_nl cs
      else (case split_nl cs of [] \<Rightarrow> [[c]] | l # ls \<Rightarrow> (c # l) # ls))"

fun join_nl :: "jsstring list \<Rightarrow> jsstring" where
  "join_nl [] = []"
| "join_nl [l] = l"
| "join_nl (l # m # ls) = l @ 10 # join_nl (m # ls)"

text \<open>\<open>s.replace(/\n\n\n*/g, '\n\n')\<close>: a run of two or more line feeds becomes two.\<close>

function replace_newlines :: "jsstring \<Rightarrow> jsstring" where
  "replace_newlines [] = []"
| "replace_newlines (c # cs) =
     (if c = 10 \<and> cs \<noteq> [] \<and> hd cs = 10
      then 10 # 10 # replace_newlines (dropWhile (\<lambda>x. x = 10) cs)
      else c # replace_newlines cs)"
  by pat_completeness auto
termination
  by (relation "measure length") (auto simp: length_dropWhile_le le_imp_less_Suc)

definition formatSubjectLine :: "jsstring \<Rightarrow> jsstring" where
  "formatSubjectLine text = trim (replace_spaces text)"

definition wrapMessageParagraph :: "jsstring \<Rightarrow> jsstring" where
  "wrapMessageParagraph text = replace_wrap (trim (replace_spaces text))"

text \<open>
  The callback of \<open>forEach\<close>: the state is \<open>formatLines\<close>, \<open>buffer\<close> and the
  \<open>lastIndex\<close> of \<open>REGEX_SPLIT\<close>.
\<close>

fun collect_lines ::
  "jsstring list \<Rightarrow> jsstring list \<times> jsstring \<times> nat \<Rightarrow> jsstring list \<times> jsstring \<times> nat" where
  "collect_lines [] acc = acc"
| "collect_lines (l # ls) (formatLines, buffer, lastIndex) =
     (case REGEX_SPLIT_g_test l lastIndex of
        (True, lastIndex') \<Rightarrow> collect_lines ls (formatLines @ [buffer, l], [], lastIndex')
      | (False, lastIndex') \<Rightarrow> collect_lines ls (formatLines, buffer @ l @ [10], lastIndex'))"

text \<open>
  The callback of \<open>map\<close>: the state is \<open>hadSubjectLine\<close> (here \<open>subjectSeen\<close>) and
  the \<open>lastIndex\<close> of \<open>REGEX_SPLIT\<close>.
\<close>

fun format_lines :: "jsstring list \<Rightarrow> bool \<Rightarrow> nat \<Rightarrow> jsstring list \<times> nat" where
  "format_lines [] subjectSeen lastIndex = ([], lastIndex)"
| "format_lines (l # ls) subjectSeen lastIndex =
     (case REGEX_SPLIT_g_test l lastIndex of
        (True, lastIndex') \<Rightarrow>
          (case format_lines ls subjectSeen lastIndex' of
             (out, li) \<Rightarrow> (trim l # out, li))
      | (False, lastIndex') \<Rightarrow>
          (if \<not> subjectSeen then
             (case format_lines ls True lastIndex' of
                (out, li) \<Rightarrow> (formatSubjectLine l # out, li))
           else
             (case format_lines ls subjectSeen lastIndex' of
                (out, li) \<Rightarrow> (wrapMessageParagraph l # out, li))))"

text \<open>
  \<open>formatGitCommitMessage(text)\<close> of the whole-document formatter, started with the
  \<open>lastIndex\<close> that \<open>REGEX_SPLIT\<close> has when the call begins; the result is the new text
  and the \<open>lastIndex\<close> that the call leaves behind.
\<close>

definition formatGitCommitMessage_text :: "jsstring \<Rightarrow> nat \<Rightarrow> jsstring \<times> nat" where
  "formatGitCommitMessage_text text lastIndex =
     (case collect_lines (split_nl text) ([], [], lastIndex) of
        (formatLines, buffer, li) \<Rightarrow>
          (case format_lines (if length buffer > 0 then formatLines @ [buffer] else formatLines)
                             False li of
             (out, li') \<Rightarrow> (replace_newlines (join_nl out), li')))"



section \<open>What the scan computes, line by line\<close>

text \<open>
  The kind that the loop gives to a line before it looks at the chunks: the kind of the
  text alone, and \<open>Diff\<close> once a line that does not match \<open>REGEX_SPLIT\<close> has come after
  a cut line. \<open>cut_seen document n\<close> and \<open>in_diff document n\<close> are the values of
  \<open>hadCutLine\<close> and \<open>areInDiff\<close> after the lines below \<open>n\<close>.
\<close>

definition raw_kind :: "jsstring \<Rightarrow> GitChunkKind" where
  "raw_kind text =
     (if REGEX_BLANK text then Blank else if REGEX_SPLIT text then Comment else Paragraph)"

definition cut_seen :: "TextDocument \<Rightarrow> nat \<Rightarrow> bool" where
  "cut_seen document n \<longleftrightarrow> (\<exists>i<n. document ! i = cut_line)"

definition in_diff :: "TextDocument \<Rightarrow> nat \<Rightarrow> bool" where
  "in_diff document n \<longleftrightarrow> (\<exists>j<n. \<not> REGEX_SPLIT (document ! j) \<and> cut_seen document j)"

definition line_kind :: "TextDocument \<Rightarrow> nat \<Rightarrow> GitChunkKind" where
  "line_kind document j =
     (if in_diff document (Suc j) then Diff else raw_kind (document ! j))"

text \<open>A Subject or Trailers chunk is a Paragraph chunk that was given another name.\<close>

definition base_kind :: "GitChunkKind \<Rightarrow> GitChunkKind" where
  "base_kind k = (if k = Subject \<or> k = Trailers then Paragraph else k)"

fun contiguous :: "GitCommitChunk list \<Rightarrow> bool" where
  "contiguous (a # b # cs) \<longleftrightarrow> endLine a + 1 = startLine b \<and> contiguous (b # cs)"
| "contiguous _ \<longleftrightarrow> True"

text \<open>The chunks split the lines below \<open>n\<close> into consecutive, non-empty ranges.\<close>

definition covers :: "GitCommitChunk list \<Rightarrow> nat \<Rightarrow> bool" where
  "covers cs n \<longleftrightarrow>
     cs \<noteq> [] \<and> startLine (hd cs) = 0 \<and> Suc (endLine (last cs)) = n \<and> contiguous cs \<and>
     (\<forall>c\<in>set cs. startLine c \<le> endLine c)"

definition kinds_ok :: "TextDocument \<Rightarrow> GitCommitChunk list \<Rightarrow> bool" where
  "kinds_ok document cs \<longleftrightarrow>
     (\<forall>c\<in>set cs. \<forall>j. startLine c \<le> j \<and> j \<le> endLine c \<longrightarrow>
        line_kind document j = base_kind (kind c))"

text \<open>
  Among the kinds of the chunks, the first one that stands for a paragraph is the
  Subject, and there is no other Subject.
\<close>

definition subject_first :: "GitChunkKind list \<Rightarrow> bool" where
  "subject_first ks =
     (case dropWhile (\<lambda>k. base_kind k \<noteq> Paragraph) ks of
        [] \<Rightarrow> True
      | k # r \<Rightarrow> k = Subject \<and> Subject \<notin> set r)"

text \<open>The invariant of the loop of \<open>getDocumentChunks\<close>, after the lines below \<open>n\<close>.\<close>

definition scan_inv :: "TextDocument \<Rightarrow> nat \<Rightarrow> scan_state \<Rightarrow> bool" where
  "scan_inv document n st \<longleftrightarrow>
     hadCutLine st = cut_seen document n \<and>
     areInDiff st = in_diff document n \<and>
     hadInitialLine st = (0 < n) \<and>
     hadSubjectLine st = (\<exists>k\<in>set (map kind (chunks st)). base_kind k = Paragraph) \<and>
     subject_first (map kind (chunks st)) \<and>
     Trailers \<notin> set (map kind (chunks st)) \<and>
     (if n = 0 then chunks st = [fake_chunk] \<and> lastKind st = Blank
      else covers (chunks st) n \<and> kinds_ok document (chunks st) \<and>
           lastKind st = line_kind document (n - 1))"


section \<open>The trailer decision in the words of the specification\<close>

text \<open>
  The lines of a chunk, and the decision of the specification on them, written from its
  section 4.3 and not from the code: a trailer line matches the trailer pattern; a
  continuation line is only whitespace and comes directly after a trailer line or another
  continuation line; a first line with a recognized prefix counts as a trailer; every line
  is scored (there is no early exit); the chunk is a Trailers block when (i) there is no
  non-trailer line and at least one trailer, or (ii) the prefix is recognized and three
  times the trailers are at least the non-trailers.
\<close>

definition chunk_lines :: "TextDocument \<Rightarrow> GitCommitChunk \<Rightarrow> jsstring list" where
  "chunk_lines document c = drop (startLine c) (take (Suc (endLine c)) document)"

definition spec_recognized_prefix :: "jsstring list \<Rightarrow> bool" where
  "spec_recognized_prefix ls =
     (case ls of [] \<Rightarrow> False | l # _ \<Rightarrow> list_ex (startsWith l) GIT_GENERATED_PREFIXES)"

text \<open>
  \<open>spec_score after_trailer ls\<close> is the pair of \<open>trailerCount\<close> and \<open>nonTrailerCount\<close>
  of the lines \<open>ls\<close>, where \<open>after_trailer\<close> says whether the line before them was a
  trailer or a continuation.
\<close>

fun spec_score :: "bool \<Rightarrow> jsstring list \<Rightarrow> nat \<times> nat" where
  "spec_score after_trailer [] = (0, 0)"
| "spec_score after_trailer (l # ls) =
     (if REGEX_TRAILER l then
        (case spec_score True ls of (t, n) \<Rightarrow> (Suc t, n))
      else if after_trailer \<and> REGEX_TRAILER_CONT l then
        spec_score True ls
      else
        (case spec_score False ls of (t, n) \<Rightarrow> (t, Suc n)))"

definition spec_counts :: "jsstring list \<Rightarrow> nat \<times> nat" where
  "spec_counts ls =
     (if spec_recognized_prefix ls
      then (case spec_score True (tl ls) of (t, n) \<Rightarrow> (Suc t, n))
      else spec_score False ls)"

definition spec_is_trailers :: "jsstring list \<Rightarrow> bool" where
  "spec_is_trailers ls =
     (case spec_counts ls of
        (trailerCount, nonTrailerCount) \<Rightarrow>
          (nonTrailerCount = 0 \<and> trailerCount > 0) \<or>
          (spec_recognized_prefix ls \<and> 3 * trailerCount \<ge> nonTrailerCount))"


section \<open>Texts with single spaces\<close>

text \<open>
  What the wrapping relies on after the whitespace has been collapsed: the only whitespace
  character left is the space, and no two whitespace characters are neighbours.
\<close>

definition only_spaces :: "jsstring \<Rightarrow> bool" where
  "only_spaces s \<longleftrightarrow> (\<forall>c\<in>set s. is_space c \<longrightarrow> c = 32)"

definition single_spaced :: "jsstring \<Rightarrow> bool" where
  "single_spaced s \<longleftrightarrow> (\<forall>i. Suc i < length s \<longrightarrow> \<not> (is_space (s ! i) \<and> is_space (s ! Suc i)))"

text \<open>A line is fine when it has at most 72 characters or is one token.\<close>

definition line_ok :: "jsstring \<Rightarrow> bool" where
  "line_ok l \<longleftrightarrow> length l \<le> 72 \<or> (\<forall>c\<in>set l. \<not> is_space c)"


section \<open>The loop of \<open>getDocumentChunks\<close> keeps its invariant\<close>

lemma cut_line_facts: "REGEX_SPLIT cut_line" "\<not> REGEX_BLANK cut_line"
  by (simp_all add: REGEX_SPLIT_def REGEX_BLANK_def cut_line_def str_def is_space_def)

lemma cut_seen_Suc: "cut_seen d (Suc n) = (cut_seen d n \<or> d ! n = cut_line)"
  by (auto simp: cut_seen_def less_Suc_eq)

lemma in_diff_Suc: "in_diff d (Suc n) = (in_diff d n \<or> (\<not> REGEX_SPLIT (d ! n) \<and> cut_seen d n))"
  by (auto simp: in_diff_def less_Suc_eq)

lemma blank_imp_split: "REGEX_BLANK t \<Longrightarrow> REGEX_SPLIT t"
  by (simp add: REGEX_BLANK_def REGEX_SPLIT_def list_all_iff dropWhile_eq_Nil_conv[THEN iffD2])

lemma contiguous_snoc:
  "contiguous (cs @ [c]) \<longleftrightarrow> contiguous cs \<and> (cs \<noteq> [] \<longrightarrow> endLine (last cs) + 1 = startLine c)"
  by (induction cs rule: contiguous.induct) auto

lemma covers_snoc:
  assumes "covers cs n" "startLine c = n" "endLine c = n"
  shows "covers (cs @ [c]) (Suc n)"
  using assms by (auto simp: covers_def contiguous_snoc)

lemma covers_single:
  assumes "startLine c = 0" "endLine c = 0"
  shows "covers [c] (Suc 0)"
  using assms by (simp add: covers_def)

lemma with_end_later:
  assumes "line (range_start r) \<le> n"
  shows "with_end r \<lparr>line = Suc n, character = m\<rparr> = \<lparr>range_start = range_start r, range_end = \<lparr>line = Suc n, character = m\<rparr>\<rparr>"
  using assms by (simp add: with_end_def new_Range_def isBefore_def)

lemma covers_extend:
  assumes "covers cs (Suc n)"
  shows "covers (butlast cs @ [(last cs)\<lparr>chunk_range := with_end (chunk_range (last cs)) \<lparr>line = Suc n, character = m\<rparr>\<rparr>]) (Suc (Suc n))"
proof -
  let ?l = "last cs"
  let ?x = "?l\<lparr>chunk_range := with_end (chunk_range ?l) \<lparr>line = Suc n, character = m\<rparr>\<rparr>"
  from assms have ne: "cs \<noteq> []" and h: "startLine (hd cs) = 0" and e: "endLine ?l = n"
    and c: "contiguous cs" and o: "\<forall>c\<in>set cs. startLine c \<le> endLine c"
    by (auto simp: covers_def)
  from ne o have "startLine ?l \<le> endLine ?l" by simp
  with e have sl: "startLine ?l \<le> n" by simp
  have xs: "startLine ?x = startLine ?l" and xe: "endLine ?x = Suc n"
    using with_end_later[OF sl] by simp_all
  from ne have split: "cs = butlast cs @ [?l]" by simp
  from c split have cb: "contiguous (butlast cs @ [?l])" by simp
  then have c': "contiguous (butlast cs @ [?x])"
    unfolding contiguous_snoc using xs by simp
  have hd': "startLine (hd (butlast cs @ [?x])) = 0"
  proof (cases "butlast cs")
    case Nil
    with split have "cs = [?l]" by simp
    then have "hd cs = ?l" by (metis list.sel(1))
    with h xs Nil show ?thesis by simp
  next
    case (Cons a as)
    with split have "hd cs = a" by (metis hd_append2 list.sel(1) list.distinct(1))
    with h Cons show ?thesis by simp
  qed
  have o': "\<forall>c\<in>set (butlast cs @ [?x]). startLine c \<le> endLine c"
    using o sl xs xe by (auto dest: in_set_butlastD)
  show ?thesis
    unfolding covers_def using c' hd' o' xe by simp
qed


lemma kinds_ok_snoc:
  assumes "kinds_ok d cs" "startLine c = n" "endLine c = n" "line_kind d n = base_kind (kind c)"
  shows "kinds_ok d (cs @ [c])"
  using assms unfolding kinds_ok_def by (auto simp: le_antisym)

lemma kinds_ok_extend:
  assumes k: "kinds_ok d cs" and cv: "covers cs (Suc n)"
    and lk: "line_kind d (Suc n) = line_kind d n"
  shows "kinds_ok d (butlast cs @ [(last cs)\<lparr>chunk_range := with_end (chunk_range (last cs)) \<lparr>line = Suc n, character = m\<rparr>\<rparr>])"
proof -
  let ?l = "last cs"
  let ?x = "?l\<lparr>chunk_range := with_end (chunk_range ?l) \<lparr>line = Suc n, character = m\<rparr>\<rparr>"
  from cv have ne: "cs \<noteq> []" and e: "endLine ?l = n"
    and o: "\<forall>c\<in>set cs. startLine c \<le> endLine c"
    by (auto simp: covers_def)
  from ne o e have sl: "startLine ?l \<le> n" by (metis last_in_set)
  have xs: "startLine ?x = startLine ?l" and xe: "endLine ?x = Suc n" and xk: "kind ?x = kind ?l"
    using with_end_later[OF sl] by simp_all
  from ne have lin: "?l \<in> set cs" by simp
  have base: "line_kind d n = base_kind (kind ?l)"
    using k lin sl e unfolding kinds_ok_def by auto
  have "\<forall>j. startLine ?x \<le> j \<and> j \<le> endLine ?x \<longrightarrow> line_kind d j = base_kind (kind ?x)"
  proof (intro allI impI)
    fix j assume j: "startLine ?x \<le> j \<and> j \<le> endLine ?x"
    show "line_kind d j = base_kind (kind ?x)"
    proof (cases "j = Suc n")
      case True
      with lk base xk show ?thesis by simp
    next
      case False
      with j xs xe e have "startLine ?l \<le> j \<and> j \<le> endLine ?l" by simp
      with k lin xk show ?thesis unfolding kinds_ok_def by auto
    qed
  qed
  moreover have "\<forall>c\<in>set (butlast cs). \<forall>j. startLine c \<le> j \<and> j \<le> endLine c \<longrightarrow> line_kind d j = base_kind (kind c)"
    using k unfolding kinds_ok_def by (auto dest: in_set_butlastD)
  ultimately show ?thesis unfolding kinds_ok_def by simp
qed

lemma map_kind_extend:
  assumes "cs \<noteq> []"
  shows "map kind (butlast cs @ [(last cs)\<lparr>chunk_range := r\<rparr>]) = map kind cs"
proof -
  from assms have "cs = butlast cs @ [last cs]" by simp
  then have "map kind cs = map kind (butlast cs) @ [kind (last cs)]"
    by (metis list.simps(8,9) map_append)
  then show ?thesis by simp
qed

lemma subject_first_snoc:
  assumes "subject_first ks" "k \<noteq> Subject \<or> (\<forall>x\<in>set ks. base_kind x \<noteq> Paragraph)"
    "base_kind k = Paragraph \<longrightarrow> k = Subject \<or> (\<exists>x\<in>set ks. base_kind x = Paragraph)"
  shows "subject_first (ks @ [k])"
proof (cases "\<forall>x\<in>set ks. base_kind x \<noteq> Paragraph")
  case True
  then have "dropWhile (\<lambda>k. base_kind k \<noteq> Paragraph) (ks @ [k]) = dropWhile (\<lambda>k. base_kind k \<noteq> Paragraph) [k]"
    by (simp add: dropWhile_append2)
  with assms(3) True show ?thesis by (auto simp: subject_first_def)
next
  case False
  then have ex: "\<exists>x\<in>set ks. \<not> base_kind x \<noteq> Paragraph" by simp
  then have "dropWhile (\<lambda>k. base_kind k \<noteq> Paragraph) (ks @ [k]) = dropWhile (\<lambda>k. base_kind k \<noteq> Paragraph) ks @ [k]"
    by (metis (mono_tags, lifting) dropWhile_append1)
  moreover from ex have "dropWhile (\<lambda>k. base_kind k \<noteq> Paragraph) ks \<noteq> []"
    by (simp add: dropWhile_eq_Nil_conv)
  moreover from assms(2) False have "k \<noteq> Subject" by auto
  ultimately show ?thesis using assms(1)
    by (auto simp: subject_first_def split: list.splits)
qed


lemma line_kind_cases:
  "line_kind d n = Diff \<or> line_kind d n = Blank \<or> line_kind d n = Comment \<or> line_kind d n = Paragraph"
  by (simp add: line_kind_def raw_kind_def)

lemma line_kind_base [simp]: "base_kind (line_kind d n) = line_kind d n"
  using line_kind_cases[of d n] by (auto simp: base_kind_def)

lemma line_kind_not_special [simp]: "line_kind d n \<noteq> Subject" "line_kind d n \<noteq> Trailers"
  using line_kind_cases[of d n] by auto

lemma scan_body_unfold:
  assumes inv: "scan_inv d n st"
  shows "scan_body n (d ! n) st =
     (if line_kind d n = lastKind st then
        (if chunks st = [] then None
         else Some (st\<lparr>hadCutLine := cut_seen d (Suc n), areInDiff := in_diff d (Suc n),
                       hadInitialLine := True,
                       chunks := butlast (chunks st) @
                         [(last (chunks st))\<lparr>chunk_range :=
                            with_end (chunk_range (last (chunks st)))
                                     \<lparr>line = n, character = length (d ! n)\<rparr>\<rparr>]\<rparr>))
      else
        Some (st\<lparr>hadCutLine := cut_seen d (Suc n), areInDiff := in_diff d (Suc n),
                 hadInitialLine := True,
                 lastKind := line_kind d n,
                 hadSubjectLine := (hadSubjectLine st \<or> line_kind d n = Paragraph),
                 chunks := (if 0 < n then chunks st else butlast (chunks st)) @
                   [\<lparr>chunk_range = line_range n (d ! n),
                     kind = (if line_kind d n = Paragraph \<and> \<not> hadSubjectLine st
                             then Subject else line_kind d n)\<rparr>]\<rparr>))"
proof -
  from inv have hc: "hadCutLine st = cut_seen d n" and hd: "areInDiff st = in_diff d n"
    and hi: "hadInitialLine st = (0 < n)"
    by (simp_all add: scan_inv_def)
  have cut: "(hadCutLine st \<or> (\<not> REGEX_BLANK (d ! n) \<and> REGEX_SPLIT (d ! n) \<and> REGEX_CUT_LINE (d ! n)))
      = cut_seen d (Suc n)"
    using cut_line_facts by (auto simp: hc cut_seen_Suc REGEX_CUT_LINE_def)
  have diff: "(areInDiff st \<or> (cut_seen d (Suc n) \<and> \<not> REGEX_SPLIT (d ! n))) = in_diff d (Suc n)"
    using cut_line_facts by (auto simp: hd in_diff_Suc cut_seen_Suc)
  have k1: "(if in_diff d (Suc n) then Diff
             else if REGEX_BLANK (d ! n) then Blank
                  else if REGEX_SPLIT (d ! n) then Comment else Paragraph) = line_kind d n"
    by (simp add: line_kind_def raw_kind_def)
  show ?thesis
    unfolding scan_body_def Let_def cut diff k1 hi
    by (simp add: line_range_def)
qed


lemma fake_chunk_extend:
  "with_end (chunk_range fake_chunk) \<lparr>line = 0, character = m\<rparr> =
     \<lparr>range_start = \<lparr>line = 0, character = 0\<rparr>, range_end = \<lparr>line = 0, character = m\<rparr>\<rparr>"
  by (simp add: fake_chunk_def with_end_def new_Range_def isBefore_def)

lemma scan_body_inv:
  assumes inv: "scan_inv d n st"
  shows "\<exists>st'. scan_body n (d ! n) st = Some st' \<and> scan_inv d (Suc n) st'"
proof -
  let ?ks = "map kind (chunks st)"
  from inv have hs: "hadSubjectLine st = (\<exists>k\<in>set ?ks. base_kind k = Paragraph)"
    and sf: "subject_first ?ks" and nt: "Trailers \<notin> set ?ks"
    by (simp_all add: scan_inv_def)
  show ?thesis
  proof (cases "line_kind d n = lastKind st")
    case same: True
    show ?thesis
    proof (cases n)
      case 0
      with inv have cs: "chunks st = [fake_chunk]" and lk: "lastKind st = Blank"
        by (simp_all add: scan_inv_def)
      let ?x = "fake_chunk\<lparr>chunk_range := with_end (chunk_range fake_chunk) \<lparr>line = 0, character = length (d ! 0)\<rparr>\<rparr>"
      have cov: "covers [?x] (Suc 0)"
        by (rule covers_single) (simp_all add: fake_chunk_extend)
      have kx: "kind fake_chunk = Blank" by (simp add: fake_chunk_def)
      have ko: "kinds_ok d [?x]"
        using same lk 0 by (simp add: kinds_ok_def fake_chunk_extend kx base_kind_def)
      have sf': "subject_first [Blank]" by (simp add: subject_first_def base_kind_def)
      from cs hs have nhs: "\<not> hadSubjectLine st" by (simp add: kx base_kind_def)
      have "scan_body n (d ! n) st = Some (st\<lparr>hadCutLine := cut_seen d (Suc n), areInDiff := in_diff d (Suc n),
                       hadInitialLine := True, chunks := [?x]\<rparr>)"
        unfolding scan_body_unfold[OF inv] using same cs 0 by simp
      moreover have "scan_inv d (Suc n) (st\<lparr>hadCutLine := cut_seen d (Suc n), areInDiff := in_diff d (Suc n),
                       hadInitialLine := True, chunks := [?x]\<rparr>)"
        unfolding scan_inv_def using cov ko sf' nhs same lk 0
        by (simp add: kx base_kind_def)
      ultimately show ?thesis by blast
    next
      case (Suc m)
      with inv have cov: "covers (chunks st) (Suc m)" and ko: "kinds_ok d (chunks st)"
        and lk: "lastKind st = line_kind d m"
        by (simp_all add: scan_inv_def)
      from cov have ne: "chunks st \<noteq> []" by (simp add: covers_def)
      let ?cs' = "butlast (chunks st) @
                         [(last (chunks st))\<lparr>chunk_range :=
                            with_end (chunk_range (last (chunks st)))
                                     \<lparr>line = Suc m, character = length (d ! Suc m)\<rparr>\<rparr>]"
      have cov': "covers ?cs' (Suc (Suc m))" by (rule covers_extend[OF cov])
      have ko': "kinds_ok d ?cs'"
        using same lk Suc by (intro kinds_ok_extend[OF ko cov]) simp
      have mk: "map kind ?cs' = ?ks" by (rule map_kind_extend[OF ne])
      have "scan_body n (d ! n) st = Some (st\<lparr>hadCutLine := cut_seen d (Suc n), areInDiff := in_diff d (Suc n),
                       hadInitialLine := True, chunks := ?cs'\<rparr>)"
        unfolding scan_body_unfold[OF inv] using same ne Suc by simp
      moreover have "scan_inv d (Suc n) (st\<lparr>hadCutLine := cut_seen d (Suc n), areInDiff := in_diff d (Suc n),
                       hadInitialLine := True, chunks := ?cs'\<rparr>)"
        unfolding scan_inv_def using cov' ko' hs sf nt same Suc
        by (simp add: mk del: map_append map_butlast)
      ultimately show ?thesis by blast
    qed
  next
    case diff: False
    let ?k2 = "if line_kind d n = Paragraph \<and> \<not> hadSubjectLine st then Subject else line_kind d n"
    let ?c = "\<lparr>chunk_range = line_range n (d ! n), kind = ?k2\<rparr>"
    have bk: "base_kind ?k2 = line_kind d n" by (simp add: base_kind_def)
    have k2t: "?k2 \<noteq> Trailers" by simp
    have cl: "startLine ?c = n" "endLine ?c = n" by (simp_all add: line_range_def)
    have kc: "kind ?c = ?k2" by simp
    show ?thesis
    proof (cases n)
      case 0
      with inv have cs: "chunks st = [fake_chunk]" by (simp add: scan_inv_def)
      with hs have nhs: "\<not> hadSubjectLine st" by (simp add: fake_chunk_def base_kind_def)
      have cov: "covers [?c] (Suc 0)" using cl 0 by (intro covers_single) simp_all
      have ko: "kinds_ok d [?c]"
        unfolding kinds_ok_def using cl bk 0 by (simp del: line_kind_base)
      have sf': "subject_first [?k2]" using nhs by (simp add: subject_first_def base_kind_def)
      have "scan_body n (d ! n) st = Some (st\<lparr>hadCutLine := cut_seen d (Suc n), areInDiff := in_diff d (Suc n),
                 hadInitialLine := True, lastKind := line_kind d n,
                 hadSubjectLine := (hadSubjectLine st \<or> line_kind d n = Paragraph),
                 chunks := [?c]\<rparr>)"
        unfolding scan_body_unfold[OF inv] using diff 0 cs by simp
      moreover have "scan_inv d (Suc n) (st\<lparr>hadCutLine := cut_seen d (Suc n), areInDiff := in_diff d (Suc n),
                 hadInitialLine := True, lastKind := line_kind d n,
                 hadSubjectLine := (hadSubjectLine st \<or> line_kind d n = Paragraph),
                 chunks := [?c]\<rparr>)"
        unfolding scan_inv_def using cov ko sf' nhs bk k2t 0
        by (simp del: line_kind_base) 
      ultimately show ?thesis by blast
    next
      case (Suc m)
      with inv have cov: "covers (chunks st) n" and ko: "kinds_ok d (chunks st)"
        by (simp_all add: scan_inv_def)
      have cov': "covers (chunks st @ [?c]) (Suc n)" by (rule covers_snoc[OF cov cl])
      have ko': "kinds_ok d (chunks st @ [?c])"
        by (rule kinds_ok_snoc[OF ko cl]) (simp only: kc bk)
      have sf': "subject_first (?ks @ [?k2])"
        using hs by (intro subject_first_snoc[OF sf]) (auto simp: base_kind_def)
      have hs': "(hadSubjectLine st \<or> line_kind d n = Paragraph) = (\<exists>k\<in>set (?ks @ [?k2]). base_kind k = Paragraph)"
        using hs bk by auto
      have "scan_body n (d ! n) st = Some (st\<lparr>hadCutLine := cut_seen d (Suc n), areInDiff := in_diff d (Suc n),
                 hadInitialLine := True, lastKind := line_kind d n,
                 hadSubjectLine := (hadSubjectLine st \<or> line_kind d n = Paragraph),
                 chunks := chunks st @ [?c]\<rparr>)"
        unfolding scan_body_unfold[OF inv] using diff Suc by simp
      moreover have "scan_inv d (Suc n) (st\<lparr>hadCutLine := cut_seen d (Suc n), areInDiff := in_diff d (Suc n),
                 hadInitialLine := True, lastKind := line_kind d n,
                 hadSubjectLine := (hadSubjectLine st \<or> line_kind d n = Paragraph),
                 chunks := chunks st @ [?c]\<rparr>)"
        unfolding scan_inv_def using cov' ko' sf' hs' nt k2t
        by simp
      ultimately show ?thesis by blast
    qed
  qed
qed

lemma scan_init_inv: "scan_inv d 0 scan_init"
  by (simp add: scan_inv_def scan_init_def cut_seen_def in_diff_def fake_chunk_def
      base_kind_def subject_first_def)

lemma scan_loop_inv:
  assumes "scan_inv d n st" "n \<le> length d"
  shows "\<exists>st'. scan_loop d n st = Some st' \<and> scan_inv d (length d) st'"
  using assms
proof (induction d n st rule: scan_loop.induct)
  case (1 d n st)
  show ?case
  proof (cases "n < length d")
    case True
    from scan_body_inv[OF "1.prems"(1)] obtain st1
      where b: "scan_body n (d ! n) st = Some st1" and i: "scan_inv d (Suc n) st1" by blast
    from "1.IH"[OF True b i] True obtain st'
      where "scan_loop d (Suc n) st1 = Some st'" "scan_inv d (length d) st'" by auto
    with True b show ?thesis by (subst scan_loop.simps) simp
  next
    case False
    with "1.prems" have "n = length d" by simp
    with "1.prems"(1) show ?thesis by (subst scan_loop.simps) simp
  qed
qed

section \<open>Consecutive chunks\<close>

lemma scan_chunks_inv:
  "\<exists>st. scan_loop d 0 scan_init = Some st \<and> scan_chunks d = Some (chunks st) \<and> scan_inv d (length d) st"
  using scan_loop_inv[OF scan_init_inv, of d] by (auto simp: scan_chunks_def)

lemma contiguous_nth:
  "contiguous cs \<Longrightarrow> Suc i < length cs \<Longrightarrow> endLine (cs ! i) + 1 = startLine (cs ! Suc i)"
proof (induction cs arbitrary: i rule: contiguous.induct)
  case (1 a b cs)
  then show ?case by (cases i) auto
qed auto

lemma chunks_increasing:
  assumes c: "contiguous cs" and o: "\<forall>c\<in>set cs. startLine c \<le> endLine c"
  shows "k2 < length cs \<Longrightarrow> k1 < k2 \<Longrightarrow> endLine (cs ! k1) < startLine (cs ! k2)"
proof (induction k2)
  case 0
  then show ?case by simp
next
  case (Suc k)
  have step: "endLine (cs ! k) + 1 = startLine (cs ! Suc k)"
    using contiguous_nth[OF c] Suc.prems(1) by simp
  show ?case
  proof (cases "k1 = k")
    case True
    with step show ?thesis by simp
  next
    case False
    with Suc.prems have "k1 < k" "k < length cs" by simp_all
    with Suc.IH have "endLine (cs ! k1) < startLine (cs ! k)" by simp
    moreover from o \<open>k < length cs\<close> have "startLine (cs ! k) \<le> endLine (cs ! k)" by simp
    ultimately show ?thesis using step by simp
  qed
qed

lemma covers_bounds:
  assumes cv: "covers cs n" and k: "k < length cs"
  shows "endLine (cs ! k) < n"
proof -
  from cv have ne: "cs \<noteq> []" and e: "Suc (endLine (last cs)) = n" and c: "contiguous cs"
    and o: "\<forall>c\<in>set cs. startLine c \<le> endLine c" by (simp_all add: covers_def)
  let ?m = "length cs - 1"
  from ne have l: "last cs = cs ! ?m" by (simp add: last_conv_nth)
  show ?thesis
  proof (cases "k = ?m")
    case True
    with l e show ?thesis by simp
  next
    case False
    with k have "k < ?m" "?m < length cs" by simp_all
    from chunks_increasing[OF c o this(2) this(1)] o \<open>?m < length cs\<close>
    have "endLine (cs ! k) < endLine (cs ! ?m)" by (meson less_le_trans nth_mem)
    with l e show ?thesis by simp
  qed
qed

lemma covers_exists:
  assumes cv: "covers cs n" and j: "j < n"
  shows "\<exists>k<length cs. startLine (cs ! k) \<le> j \<and> j \<le> endLine (cs ! k)"
proof (rule ccontr)
  assume neg: "\<not> ?thesis"
  from cv have ne: "cs \<noteq> []" and h: "startLine (hd cs) = 0" and e: "Suc (endLine (last cs)) = n"
    and c: "contiguous cs" by (simp_all add: covers_def)
  have "k < length cs \<Longrightarrow> endLine (cs ! k) < j" for k
  proof (induction k)
    case 0
    from ne h have "startLine (cs ! 0) = 0" by (simp add: hd_conv_nth)
    with neg 0 show ?case by (metis le0 not_le_imp_less)
  next
    case (Suc k)
    then have "endLine (cs ! k) < j" by simp
    moreover have "endLine (cs ! k) + 1 = startLine (cs ! Suc k)"
      using contiguous_nth[OF c] Suc.prems by simp
    ultimately have "startLine (cs ! Suc k) \<le> j" by simp
    with neg Suc.prems show ?case by (metis not_le_imp_less)
  qed
  from this[of "length cs - 1"] ne have "endLine (last cs) < j" by (simp add: last_conv_nth)
  with e j show False by simp
qed

lemma covers_unique:
  assumes cv: "covers cs n"
    and k1: "k1 < length cs" "startLine (cs ! k1) \<le> j" "j \<le> endLine (cs ! k1)"
    and k2: "k2 < length cs" "startLine (cs ! k2) \<le> j" "j \<le> endLine (cs ! k2)"
  shows "k1 = k2"
proof (rule ccontr)
  assume ne: "k1 \<noteq> k2"
  from cv have c: "contiguous cs" and o: "\<forall>c\<in>set cs. startLine c \<le> endLine c"
    by (simp_all add: covers_def)
  from ne consider "k1 < k2" | "k2 < k1" by (metis nat_neq_iff)
  then show False
  proof cases
    case 1
    from chunks_increasing[OF c o k2(1) 1] k1(3) k2(2) show False by simp
  next
    case 2
    from chunks_increasing[OF c o k1(1) 2] k2(3) k1(2) show False by simp
  qed
qed

section \<open>The chunks that \<open>getDocumentChunks\<close> returns\<close>

lemma trailer_loop_total:
  "e < length d \<Longrightarrow> \<exists>b. trailer_loop d c e st = Some b"
proof (induction d c e st rule: trailer_loop.induct)
  case (1 d c e st)
  show ?case
  proof (cases "c \<le> e")
    case True
    with "1.prems" have l: "lineAt d c = Some (d ! c)" by (simp add: lineAt_def)
    show ?thesis
    proof (cases "trailer_body (d ! c) st")
      case (Inl b)
      with True l show ?thesis by (subst trailer_loop.simps) simp
    next
      case (Inr st')
      from "1.IH"[OF True l Inr "1.prems"] obtain b where "trailer_loop d (Suc c) e st' = Some b" ..
      with True l Inr show ?thesis by (subst trailer_loop.simps) simp
    qed
  next
    case False
    then show ?thesis by (subst trailer_loop.simps) simp
  qed
qed

lemma lastIndexOf_None: "lastIndexOf xs x = None \<Longrightarrow> x \<notin> set xs"
  by (induction xs) (auto split: option.splits if_splits)

lemma lastIndexOf_Some:
  "lastIndexOf xs x = Some i \<Longrightarrow> i < length xs \<and> xs ! i = x \<and> (\<forall>j. i < j \<and> j < length xs \<longrightarrow> xs ! j \<noteq> x)"
proof (induction xs arbitrary: i)
  case Nil
  then show ?case by simp
next
  case (Cons y ys)
  show ?case
  proof (cases "lastIndexOf ys x")
    case None
    with Cons.prems have yi: "y = x" "i = 0" by (auto split: if_splits)
    have "\<forall>j. 0 < j \<and> j < Suc (length ys) \<longrightarrow> (y # ys) ! j \<noteq> x"
    proof (intro allI impI)
      fix j assume j: "0 < j \<and> j < Suc (length ys)"
      then obtain m where m: "j = Suc m" "m < length ys" by (cases j) auto
      with lastIndexOf_None[OF None] show "(y # ys) ! j \<noteq> x" by (metis nth_Cons_Suc nth_mem)
    qed
    with yi show ?thesis by simp
  next
    case (Some k)
    with Cons.prems have i: "i = Suc k" by simp
    from Cons.IH[OF Some] show ?thesis unfolding i
      by (auto simp: nth_Cons' less_Suc_eq_0_disj)
  qed
qed

lemma contiguous_update_kind:
  "contiguous (cs[i := (cs ! i)\<lparr>kind := k\<rparr>]) = contiguous cs"
proof (induction cs arbitrary: i rule: contiguous.induct)
  case (1 a b cs)
  show ?case
  proof (cases i)
    case 0
    then show ?thesis by simp
  next
    case (Suc j)
    with "1.IH"[of j] show ?thesis by (cases j) simp_all
  qed
qed (simp_all split: nat.splits)

lemma covers_update_kind:
  assumes "covers cs n" "i < length cs"
  shows "covers (cs[i := (cs ! i)\<lparr>kind := k\<rparr>]) n"
proof -
  let ?cs = "cs[i := (cs ! i)\<lparr>kind := k\<rparr>]"
  from assms have ne: "cs \<noteq> []" by (simp add: covers_def)
  have r: "chunk_range (?cs ! j) = chunk_range (cs ! j)" if "j < length cs" for j
    using that by (cases "j = i") simp_all
  have "hd ?cs = ?cs ! 0" "last ?cs = ?cs ! (length cs - 1)" "hd cs = cs ! 0" "last cs = cs ! (length cs - 1)"
    using ne by (simp_all add: hd_conv_nth last_conv_nth)
  then have h: "startLine (hd ?cs) = startLine (hd cs)" "endLine (last ?cs) = endLine (last cs)"
    using r[of 0] r[of "length cs - 1"] ne by simp_all
  have "\<forall>c\<in>set ?cs. startLine c \<le> endLine c"
  proof
    fix c assume "c \<in> set ?cs"
    then obtain j where j: "j < length cs" "c = ?cs ! j" by (auto simp: in_set_conv_nth)
    from assms(1) j(1) have "startLine (cs ! j) \<le> endLine (cs ! j)" by (simp add: covers_def)
    with r[OF j(1)] j(2) show "startLine c \<le> endLine c" by simp
  qed
  with assms(1) h ne show ?thesis by (simp add: covers_def contiguous_update_kind)
qed

lemma kinds_ok_update_kind:
  assumes "kinds_ok d cs" "i < length cs" "base_kind k = base_kind (kind (cs ! i))"
  shows "kinds_ok d (cs[i := (cs ! i)\<lparr>kind := k\<rparr>])"
  unfolding kinds_ok_def
proof (intro ballI allI impI)
  fix c j
  assume c: "c \<in> set (cs[i := (cs ! i)\<lparr>kind := k\<rparr>])" and j: "startLine c \<le> j \<and> j \<le> endLine c"
  from c have "c = (cs ! i)\<lparr>kind := k\<rparr> \<or> c \<in> set cs"
    by (metis insertE set_update_subset_insert subsetD)
  then show "line_kind d j = base_kind (kind c)"
  proof
    assume e: "c = (cs ! i)\<lparr>kind := k\<rparr>"
    with j have "startLine (cs ! i) \<le> j \<and> j \<le> endLine (cs ! i)" by simp
    with assms(1,2) have "line_kind d j = base_kind (kind (cs ! i))"
      unfolding kinds_ok_def by (meson nth_mem)
    with e assms(3) show ?thesis by simp
  next
    assume "c \<in> set cs"
    with assms(1) j show ?thesis unfolding kinds_ok_def by blast
  qed
qed

lemma subject_first_Cons:
  "subject_first (k # ks) = (if base_kind k \<noteq> Paragraph then subject_first ks else k = Subject \<and> Subject \<notin> set ks)"
  by (simp add: subject_first_def)

lemma subject_first_update:
  "subject_first ks \<Longrightarrow> i < length ks \<Longrightarrow> ks ! i = Paragraph \<Longrightarrow> subject_first (ks[i := Trailers])"
proof (induction ks arbitrary: i)
  case Nil
  then show ?case by simp
next
  case (Cons k ks)
  show ?case
  proof (cases i)
    case 0
    with Cons.prems show ?thesis by (simp add: subject_first_Cons base_kind_def)
  next
    case (Suc j)
    show ?thesis
    proof (cases "base_kind k \<noteq> Paragraph")
      case True
      with Cons Suc show ?thesis by (simp add: subject_first_Cons)
    next
      case False
      with Cons.prems have "k = Subject" "Subject \<notin> set ks" by (simp_all add: subject_first_Cons)
      moreover have "set (ks[j := Trailers]) \<subseteq> insert Trailers (set ks)"
        by (rule set_update_subset_insert)
      ultimately show ?thesis using Suc False by (auto simp: subject_first_Cons)
    qed
  qed
qed

lemma getDocumentChunks_final:
  "\<exists>cs0 cs. scan_chunks d = Some cs0 \<and> getDocumentChunks d = Some cs \<and>
     length cs = length cs0 \<and> map chunk_range cs = map chunk_range cs0 \<and>
     subject_first (map kind cs) \<and>
     (if d = [] then cs = [fake_chunk] else covers cs (length d) \<and> kinds_ok d cs)"
proof -
  from scan_chunks_inv[of d] obtain st where sc: "scan_chunks d = Some (chunks st)"
    and inv: "scan_inv d (length d) st" by blast
  let ?cs = "chunks st"
  from inv have sf: "subject_first (map kind ?cs)" by (simp add: scan_inv_def)
  from inv have fin: "if d = [] then ?cs = [fake_chunk] else covers ?cs (length d) \<and> kinds_ok d ?cs"
    by (simp add: scan_inv_def)
  show ?thesis
  proof (cases "lastIndexOf (map kind ?cs) Paragraph")
    case None
    with sc have "getDocumentChunks d = Some ?cs" by (simp add: getDocumentChunks_def)
    with sc sf fin show ?thesis by simp
  next
    case (Some i)
    from lastIndexOf_Some[OF Some] have i: "i < length ?cs" by simp
    from lastIndexOf_Some[OF Some] i have ki: "kind (?cs ! i) = Paragraph" by simp
    have nonempty: "d \<noteq> []"
    proof
      assume "d = []"
      with fin have "?cs = [fake_chunk]" by simp
      with i ki show False by (simp add: fake_chunk_def)
    qed
    with fin have cv: "covers ?cs (length d)" and ko: "kinds_ok d ?cs" by simp_all
    from covers_bounds[OF cv i] obtain b where b: "isTrailersChunk (?cs ! i) d = Some b"
      unfolding isTrailersChunk_def using trailer_loop_total by blast
    let ?cs' = "?cs[i := (?cs ! i)\<lparr>kind := Trailers\<rparr>]"
    have g: "getDocumentChunks d = Some (if b then ?cs' else ?cs)"
      using sc Some b by (simp add: getDocumentChunks_def)
    show ?thesis
    proof (cases b)
      case False
      with g sc sf fin show ?thesis by simp
    next
      case True
      have "map kind ?cs' = (map kind ?cs)[i := Trailers]" by (simp add: map_update)
      with subject_first_update[OF sf] i ki have sf': "subject_first (map kind ?cs')" by simp
      have cv': "covers ?cs' (length d)" by (rule covers_update_kind[OF cv i])
      have ko': "kinds_ok d ?cs'"
        by (rule kinds_ok_update_kind[OF ko i]) (simp add: ki base_kind_def)
      have mr: "map chunk_range ?cs' = map chunk_range ?cs"
        by (simp add: map_update list_update_same_conv i)
      from True g sc sf' cv' ko' mr nonempty show ?thesis by simp
    qed
  qed
qed

lemma in_diff_mono: "in_diff d a \<Longrightarrow> a \<le> b \<Longrightarrow> in_diff d b"
  unfolding in_diff_def by (meson less_le_trans)

lemma in_diffI: "i < j \<Longrightarrow> d ! i = cut_line \<Longrightarrow> \<not> REGEX_SPLIT (d ! j) \<Longrightarrow> j < n \<Longrightarrow> in_diff d n"
  unfolding in_diff_def cut_seen_def by blast

lemma not_in_diffI: "\<forall>i<k. d ! i \<noteq> cut_line \<Longrightarrow> \<not> in_diff d (Suc k)"
  unfolding in_diff_def cut_seen_def by (meson less_Suc_eq_le less_le_trans)

lemma base_kind_Diff [simp]: "base_kind k = Diff \<longleftrightarrow> k = Diff"
  by (simp add: base_kind_def)

lemma base_kind_Paragraph: "base_kind k = Paragraph \<longleftrightarrow> k = Paragraph \<or> k = Subject \<or> k = Trailers"
  by (auto simp: base_kind_def)

lemma line_kind_Paragraph:
  "line_kind d j = Paragraph \<longleftrightarrow> \<not> in_diff d (Suc j) \<and> \<not> REGEX_SPLIT (d ! j)"
  using blank_imp_split[of "d ! j"] by (auto simp: line_kind_def raw_kind_def)

lemma trailer_cont_blank: "REGEX_TRAILER_CONT t \<Longrightarrow> REGEX_BLANK t"
  by (simp add: REGEX_TRAILER_CONT_def REGEX_BLANK_def)

lemma empty_blank: "REGEX_BLANK []"
  by (simp add: REGEX_BLANK_def)


section \<open>The Subject chunk\<close>

lemma subject_first_count:
  "subject_first ks \<Longrightarrow> length (filter (\<lambda>k. k = Subject) ks) \<le> 1"
proof (induction ks)
  case Nil
  then show ?case by simp
next
  case (Cons k ks)
  show ?case
  proof (cases "base_kind k \<noteq> Paragraph")
    case True
    then have "k \<noteq> Subject" by (auto simp: base_kind_def)
    with Cons True show ?thesis by (simp add: subject_first_Cons)
  next
    case False
    with Cons.prems have "k = Subject" "Subject \<notin> set ks" by (simp_all add: subject_first_Cons)
    then have "filter (\<lambda>k. k = Subject) ks = []" by (auto simp: filter_empty_conv)
    then show ?thesis by simp
  qed
qed

lemma subject_first_index:
  "subject_first ks \<Longrightarrow> q < length ks \<Longrightarrow> base_kind (ks ! q) = Paragraph \<Longrightarrow>
   \<exists>m\<le>q. ks ! m = Subject \<and> (\<forall>m'<m. base_kind (ks ! m') \<noteq> Paragraph) \<and>
          (\<forall>m'<length ks. ks ! m' = Subject \<longrightarrow> m' = m)"
proof (induction ks arbitrary: q)
  case Nil
  then show ?case by simp
next
  case (Cons k ks)
  show ?case
  proof (cases "base_kind k \<noteq> Paragraph")
    case True
    then have kn: "k \<noteq> Subject" by (auto simp: base_kind_def)
    from True Cons.prems obtain q' where q: "q = Suc q'" by (cases q) auto
    from Cons.prems True have sf: "subject_first ks" by (simp add: subject_first_Cons)
    from Cons.IH[OF sf, of q'] Cons.prems q obtain m
      where m: "m \<le> q'" "ks ! m = Subject" "\<forall>m'<m. base_kind (ks ! m') \<noteq> Paragraph"
        "\<forall>m'<length ks. ks ! m' = Subject \<longrightarrow> m' = m" by auto
    have a: "\<forall>m'<Suc m. base_kind ((k # ks) ! m') \<noteq> Paragraph"
      using m(3) True by (auto simp: nth_Cons')
    have b: "\<forall>m'<length (k # ks). (k # ks) ! m' = Subject \<longrightarrow> m' = Suc m"
    proof (intro allI impI)
      fix m' assume "m' < length (k # ks)" "(k # ks) ! m' = Subject"
      with kn obtain n where "m' = Suc n" "n < length ks" "ks ! n = Subject" by (cases m') auto
      with m(4) show "m' = Suc m" by simp
    qed
    from m(1,2) q a b show ?thesis by (intro exI[of _ "Suc m"]) simp
  next
    case False
    with Cons.prems have ks: "k = Subject" "Subject \<notin> set ks" by (simp_all add: subject_first_Cons)
    have "\<forall>m'<length (k # ks). (k # ks) ! m' = Subject \<longrightarrow> m' = 0"
    proof (intro allI impI)
      fix m' assume a: "m' < length (k # ks)" "(k # ks) ! m' = Subject"
      show "m' = 0"
      proof (cases m')
        case (Suc n)
        with a have "n < length ks" "ks ! n = Subject" by simp_all
        with ks(2) show ?thesis by (metis nth_mem)
      qed simp
    qed
    with ks(1) show ?thesis by (intro exI[of _ 0]) simp
  qed
qed

section \<open>\<open>isTrailersChunk\<close> against the decision of the specification\<close>

lemma spec_score_no_cont:
  "\<forall>l\<in>set ls. \<not> REGEX_TRAILER_CONT l \<Longrightarrow> spec_score b ls = spec_score b' ls"
  by (cases ls) simp_all

lemma spec_score_prose:
  "\<forall>l\<in>set ls. \<not> REGEX_TRAILER l \<and> \<not> REGEX_TRAILER_CONT l \<Longrightarrow> spec_score b ls = (0, length ls)"
  by (induction ls arbitrary: b) simp_all

lemma drop_take_step:
  assumes "c \<le> e" "e < length d"
  shows "drop c (take (Suc e) d) = d ! c # drop (Suc c) (take (Suc e) d)"
proof -
  from assms have "c < length (take (Suc e) d)" by simp
  from Cons_nth_drop_Suc[OF this] assms show ?thesis by simp
qed

lemma trailer_loop_rest:
  assumes "\<not> first_line st" "e < length d" "c \<le> Suc e"
    "\<forall>j. c \<le> j \<and> j \<le> e \<longrightarrow> \<not> REGEX_TRAILER_CONT (d ! j)"
    "recognized_prefix st \<or> non_trailers st = 0"
  shows "trailer_loop d c e st =
     Some (case spec_score b (drop c (take (Suc e) d)) of
             (t, n) \<Rightarrow> (non_trailers st + n = 0 \<and> trailers st + t > 0) \<or>
                       (recognized_prefix st \<and> 3 * (trailers st + t) \<ge> non_trailers st + n))"
  using assms
proof (induction d c e st arbitrary: b rule: trailer_loop.induct)
  case (1 d c e st)
  show ?case
  proof (cases "c \<le> e")
    case False
    with "1.prems" have "c = Suc e" by simp
    then have "drop c (take (Suc e) d) = []" by simp
    with False show ?thesis
      by (subst trailer_loop.simps) (simp add: trailer_result_def)
  next
    case True
    with "1.prems" have l: "lineAt d c = Some (d ! c)" by (simp add: lineAt_def)
    from True "1.prems" have nc: "\<not> REGEX_TRAILER_CONT (d ! c)" by simp
    have dt: "drop c (take (Suc e) d) = d ! c # drop (Suc c) (take (Suc e) d)"
      by (rule drop_take_step[OF True "1.prems"(2)])
    have rest: "\<forall>j. Suc c \<le> j \<and> j \<le> e \<longrightarrow> \<not> REGEX_TRAILER_CONT (d ! j)"
      using "1.prems"(4) by simp
    show ?thesis
    proof (cases "REGEX_TRAILER (d ! c)")
      case tr: True
      let ?st' = "st\<lparr>trailers := trailers st + 1, possible_continuation := True\<rparr>"
      have tb: "trailer_body (d ! c) st = Inr ?st'"
        using "1.prems"(1) nc tr by (simp add: trailer_body_def)
      have "trailer_loop d (Suc c) e ?st' =
        Some (case spec_score True (drop (Suc c) (take (Suc e) d)) of
             (t, n) \<Rightarrow> (non_trailers ?st' + n = 0 \<and> trailers ?st' + t > 0) \<or>
                       (recognized_prefix ?st' \<and> 3 * (trailers ?st' + t) \<ge> non_trailers ?st' + n))"
        using "1.prems" True rest by (intro "1.IH"[OF True l tb]) simp_all
      then show ?thesis
        using True l tb tr unfolding dt
        by (subst trailer_loop.simps) (auto split: prod.splits)
    next
      case ntr: False
      show ?thesis
      proof (cases "recognized_prefix st")
        case False
        have tb: "trailer_body (d ! c) st = Inl False"
          using "1.prems"(1) nc ntr False by (simp add: trailer_body_def)
        show ?thesis
          using True l tb ntr nc False unfolding dt
          by (subst trailer_loop.simps) (auto split: prod.splits)
      next
        case rp: True
        let ?st' = "st\<lparr>non_trailers := non_trailers st + 1, possible_continuation := False\<rparr>"
        have tb: "trailer_body (d ! c) st = Inr ?st'"
          using "1.prems"(1) nc ntr rp by (simp add: trailer_body_def)
        have "trailer_loop d (Suc c) e ?st' =
          Some (case spec_score False (drop (Suc c) (take (Suc e) d)) of
             (t, n) \<Rightarrow> (non_trailers ?st' + n = 0 \<and> trailers ?st' + t > 0) \<or>
                       (recognized_prefix ?st' \<and> 3 * (trailers ?st' + t) \<ge> non_trailers ?st' + n))"
          using "1.prems" True rest rp by (intro "1.IH"[OF True l tb]) simp_all
        then show ?thesis
          using True l tb ntr nc rp unfolding dt
          by (subst trailer_loop.simps) (auto split: prod.splits)
      qed
    qed
  qed
qed

lemma isTrailersChunk_spec:
  assumes se: "startLine c \<le> endLine c" and el: "endLine c < length d"
    and nc: "\<forall>j. startLine c \<le> j \<and> j \<le> endLine c \<longrightarrow> \<not> REGEX_TRAILER_CONT (d ! j)"
  shows "isTrailersChunk c d = Some (spec_is_trailers (chunk_lines d c))"
proof -
  let ?s = "startLine c" and ?e = "endLine c"
  let ?l = "d ! ?s" and ?rest = "drop (Suc ?s) (take (Suc ?e) d)"
  from se el have l: "lineAt d ?s = Some ?l" by (simp add: lineAt_def)
  have cl: "chunk_lines d c = ?l # ?rest"
    unfolding chunk_lines_def by (rule drop_take_step[OF se el])
  from nc se have ncl: "\<not> REGEX_TRAILER_CONT ?l" by simp
  have rest: "\<forall>j. Suc ?s \<le> j \<and> j \<le> ?e \<longrightarrow> \<not> REGEX_TRAILER_CONT (d ! j)"
    using nc by simp
  have sle: "Suc ?s \<le> Suc ?e" using se by simp
  let ?pre = "list_ex (startsWith ?l) GIT_GENERATED_PREFIXES"
  have sp: "spec_recognized_prefix (chunk_lines d c) = ?pre"
    by (simp add: cl spec_recognized_prefix_def)
  show ?thesis
  proof (cases ?pre)
    case True
    let ?st' = "\<lparr>first_line = False, recognized_prefix = True, trailers = 1, non_trailers = 0,
      possible_continuation = False\<rparr>"
    have tb: "trailer_body ?l trailer_init = Inr ?st'"
      using True by (simp add: trailer_body_def trailer_init_def)
    have "trailer_loop d (Suc ?s) ?e ?st' =
        Some (case spec_score True ?rest of
             (t, n) \<Rightarrow> (non_trailers ?st' + n = 0 \<and> trailers ?st' + t > 0) \<or>
                       (recognized_prefix ?st' \<and> 3 * (trailers ?st' + t) \<ge> non_trailers ?st' + n))"
      by (rule trailer_loop_rest[OF _ el sle rest]) simp_all
    then show ?thesis
      unfolding isTrailersChunk_def using se l tb True sp
      by (subst trailer_loop.simps)
         (auto simp: spec_is_trailers_def spec_counts_def cl split: prod.splits)
  next
    case False
    show ?thesis
    proof (cases "REGEX_TRAILER ?l")
      case tr: True
      let ?st' = "\<lparr>first_line = False, recognized_prefix = False, trailers = 1, non_trailers = 0,
        possible_continuation = True\<rparr>"
      have tb: "trailer_body ?l trailer_init = Inr ?st'"
        using False tr by (simp add: trailer_body_def trailer_init_def)
      have "trailer_loop d (Suc ?s) ?e ?st' =
        Some (case spec_score True ?rest of
             (t, n) \<Rightarrow> (non_trailers ?st' + n = 0 \<and> trailers ?st' + t > 0) \<or>
                       (recognized_prefix ?st' \<and> 3 * (trailers ?st' + t) \<ge> non_trailers ?st' + n))"
        by (rule trailer_loop_rest[OF _ el sle rest]) simp_all
      then show ?thesis
        unfolding isTrailersChunk_def using se l tb False sp tr
        by (subst trailer_loop.simps)
           (auto simp: spec_is_trailers_def spec_counts_def cl split: prod.splits)
    next
      case ntr: False
      have tb: "trailer_body ?l trailer_init = Inl False"
        using False ntr by (simp add: trailer_body_def trailer_init_def)
      show ?thesis
        unfolding isTrailersChunk_def using se l tb False sp ntr
        by (subst trailer_loop.simps)
           (auto simp: spec_is_trailers_def spec_counts_def cl split: prod.splits)
    qed
  qed
qed

lemma chunk_lines_set:
  assumes "l \<in> set (chunk_lines d c)" "endLine c < length d"
  shows "\<exists>j. startLine c \<le> j \<and> j \<le> endLine c \<and> l = d ! j"
proof -
  from assms(1) obtain k where k: "k < length (chunk_lines d c)" "l = chunk_lines d c ! k"
    by (auto simp: in_set_conv_nth)
  from k(1) assms(2) have kl: "startLine c + k < Suc (endLine c)"
    by (simp add: chunk_lines_def)
  with k(2) assms(2) have "l = d ! (startLine c + k)"
    by (simp add: chunk_lines_def)
  with kl show ?thesis by (intro exI[of _ "startLine c + k"]) simp
qed

section \<open>Evaluation on concrete documents\<close>

lemmas chunk_eval =
  getDocumentChunks_def scan_chunks_def scan_loop.simps scan_body_def scan_init_def fake_chunk_def
  isTrailersChunk_def trailer_loop.simps trailer_body_def trailer_init_def trailer_result_def lineAt_def
  new_Range_def isBefore_def with_end_def line_range_def
  REGEX_BLANK_def REGEX_SPLIT_def REGEX_CUT_LINE_def REGEX_TRAILER_def REGEX_TRAILER_CONT_def cut_line_def
  GIT_GENERATED_PREFIXES_def startsWith_def str_def is_space_def is_key_char_def is_line_terminator_def

lemmas text_eval =
  formatGitCommitMessage_text_def REGEX_SPLIT_g_test_def regex_test_g.simps split_match_at_def
  formatSubjectLine_def wrapMessageParagraph_def trim_def is_space_def str_def
  replace_wrap.simps wrap_match_def wrap_lookahead_def


section \<open>The chunks partition the document\<close>

text \<open>
  Claim C2. For a document with at least one line, \<open>getDocumentChunks\<close> returns, and
  its chunks are ordered and contiguous: the line after the end of a chunk is the start of
  the next chunk. The first chunk starts at line 0, the last chunk ends at the last line,
  and every line of the document lies in exactly one chunk.
\<close>

theorem chunks_partition_document:
  assumes "d \<noteq> []"
  shows "\<exists>cs. getDocumentChunks d = Some cs \<and> cs \<noteq> [] \<and>
           (\<forall>i. Suc i < length cs \<longrightarrow> endLine (cs ! i) + 1 = startLine (cs ! Suc i)) \<and>
           startLine (cs ! 0) = 0 \<and>
           endLine (cs ! (length cs - 1)) = length d - 1 \<and>
           (\<forall>j<length d. \<exists>!k. k < length cs \<and> startLine (cs ! k) \<le> j \<and> j \<le> endLine (cs ! k))"
proof -
  from getDocumentChunks_final[of d] assms obtain cs
    where g: "getDocumentChunks d = Some cs" and cv: "covers cs (length d)" by auto
  from cv have ne: "cs \<noteq> []" and h: "startLine (hd cs) = 0"
    and e: "Suc (endLine (last cs)) = length d" and c: "contiguous cs" by (simp_all add: covers_def)
  have 1: "\<forall>i. Suc i < length cs \<longrightarrow> endLine (cs ! i) + 1 = startLine (cs ! Suc i)"
    using contiguous_nth[OF c] by blast
  have 2: "startLine (cs ! 0) = 0" using h ne by (simp add: hd_conv_nth)
  have 3: "endLine (cs ! (length cs - 1)) = length d - 1"
    using e ne by (simp add: last_conv_nth)
  have 4: "\<forall>j<length d. \<exists>!k. k < length cs \<and> startLine (cs ! k) \<le> j \<and> j \<le> endLine (cs ! k)"
  proof (intro allI impI)
    fix j assume "j < length d"
    from covers_exists[OF cv this] obtain k
      where k: "k < length cs \<and> startLine (cs ! k) \<le> j \<and> j \<le> endLine (cs ! k)" by blast
    show "\<exists>!k. k < length cs \<and> startLine (cs ! k) \<le> j \<and> j \<le> endLine (cs ! k)"
    proof (rule ex1I[of _ k])
      show "k < length cs \<and> startLine (cs ! k) \<le> j \<and> j \<le> endLine (cs ! k)" by (rule k)
    next
      fix k' assume "k' < length cs \<and> startLine (cs ! k') \<le> j \<and> j \<le> endLine (cs ! k')"
      with k show "k' = k" using covers_unique[OF cv, of k' j k] by blast
    qed
  qed
  from g ne 1 2 3 4 show ?thesis by blast
qed

theorem chunks_partition_document_witness:
  "[str ''subject'', [], str ''body''] \<noteq> [] \<and>
   (\<exists>cs. getDocumentChunks [str ''subject'', [], str ''body''] = Some cs \<and> cs \<noteq> [] \<and>
      (\<forall>i. Suc i < length cs \<longrightarrow> endLine (cs ! i) + 1 = startLine (cs ! Suc i)) \<and>
      startLine (cs ! 0) = 0 \<and>
      endLine (cs ! (length cs - 1)) = length [str ''subject'', [], str ''body''] - 1 \<and>
      (\<forall>j<length [str ''subject'', [], str ''body''].
         \<exists>!k. k < length cs \<and> startLine (cs ! k) \<le> j \<and> j \<le> endLine (cs ! k)))"
proof -
  have h: "[str ''subject'', [], str ''body''] \<noteq> []" by simp
  from chunks_partition_document[OF h] h show ?thesis by blast
qed


section \<open>The diff region reaches the end of the document\<close>

text \<open>
  Claim C3. When a cut line at line \<open>i\<close> is followed, at a later line \<open>j\<close>, by a line
  that does not match the comment pattern \<open>REGEX_SPLIT\<close>, then the line \<open>j\<close> lies in a
  chunk, and every chunk that ends at line \<open>j\<close> or later (the chunk of line \<open>j\<close> and
  every chunk after it) has kind Diff, whatever its lines hold: the diff mode never resets.
\<close>

theorem diff_suffix_closed:
  assumes "i < j" "j < length d" "REGEX_CUT_LINE (d ! i)" "\<not> REGEX_SPLIT (d ! j)"
  shows "\<exists>cs. getDocumentChunks d = Some cs \<and>
           (\<exists>c\<in>set cs. startLine c \<le> j \<and> j \<le> endLine c) \<and>
           (\<forall>c\<in>set cs. j \<le> endLine c \<longrightarrow> kind c = Diff)"
proof -
  from assms(2) have "d \<noteq> []" by auto
  with getDocumentChunks_final[of d] obtain cs
    where g: "getDocumentChunks d = Some cs" and cv: "covers cs (length d)"
      and ko: "kinds_ok d cs" by auto
  from covers_exists[OF cv assms(2)] have ex: "\<exists>c\<in>set cs. startLine c \<le> j \<and> j \<le> endLine c"
    by (meson nth_mem)
  have "kind c = Diff" if c: "c \<in> set cs" and je: "j \<le> endLine c" for c
  proof -
    from cv c have "startLine c \<le> endLine c" by (simp add: covers_def)
    with ko c have lk: "line_kind d (endLine c) = base_kind (kind c)"
      unfolding kinds_ok_def by blast
    from assms je have "in_diff d (Suc (endLine c))"
      by (intro in_diffI[of i j]) (simp_all add: REGEX_CUT_LINE_def)
    with lk have "base_kind (kind c) = Diff" by (simp add: line_kind_def)
    then show ?thesis by simp
  qed
  with g ex show ?thesis by blast
qed

theorem diff_suffix_closed_witness:
  "(1::nat) < 3 \<and> 3 < length [str ''subject'', cut_line, [], str ''diff --git'', [], str ''# x''] \<and>
   REGEX_CUT_LINE ([str ''subject'', cut_line, [], str ''diff --git'', [], str ''# x''] ! 1) \<and>
   \<not> REGEX_SPLIT ([str ''subject'', cut_line, [], str ''diff --git'', [], str ''# x''] ! 3) \<and>
   (\<exists>cs. getDocumentChunks [str ''subject'', cut_line, [], str ''diff --git'', [], str ''# x''] = Some cs \<and>
      (\<exists>c\<in>set cs. startLine c \<le> 3 \<and> 3 \<le> endLine c) \<and>
      (\<forall>c\<in>set cs. 3 \<le> endLine c \<longrightarrow> kind c = Diff))"
proof -
  let ?d = "[str ''subject'', cut_line, [], str ''diff --git'', [], str ''# x'']"
  have 1: "(1::nat) < 3" by simp
  have 2: "3 < length ?d" by simp
  have 3: "REGEX_CUT_LINE (?d ! 1)" by (simp add: REGEX_CUT_LINE_def)
  have 4: "\<not> REGEX_SPLIT (?d ! 3)" by (simp add: REGEX_SPLIT_def str_def is_space_def)
  from diff_suffix_closed[OF 1 2 3 4] 1 2 3 4 show ?thesis by blast
qed


section \<open>Paragraph, Subject and Trailers chunks hold no blank line\<close>

text \<open>
  Claim C10. \<open>getDocumentChunks\<close> returns, and every line of a chunk of kind Paragraph,
  Subject or Trailers is a line of the document that is neither empty nor only
  whitespace: it does not match \<open>REGEX_BLANK\<close>, and so it does not match
  \<open>REGEX_TRAILER_CONT\<close> either. The chunk that \<open>isTrailersChunk\<close> is called with is the
  last chunk of kind Paragraph of the array after the loop (\<open>scan_chunks\<close>); on every line
  that \<open>isTrailersChunk\<close> reads there, the test \<open>REGEX_TRAILER_CONT.test(text)\<close> of the
  continuation branch is false, so the branch is never taken.
\<close>

theorem text_chunks_have_no_blank_line:
  "\<exists>cs0 cs. scan_chunks d = Some cs0 \<and> getDocumentChunks d = Some cs \<and>
     (\<forall>c\<in>set cs. kind c = Paragraph \<or> kind c = Subject \<or> kind c = Trailers \<longrightarrow>
        (\<forall>j. startLine c \<le> j \<and> j \<le> endLine c \<longrightarrow>
           j < length d \<and> d ! j \<noteq> [] \<and> \<not> REGEX_BLANK (d ! j) \<and> \<not> REGEX_TRAILER_CONT (d ! j))) \<and>
     (\<forall>i. lastIndexOf (map kind cs0) Paragraph = Some i \<longrightarrow>
        (\<forall>j. startLine (cs0 ! i) \<le> j \<and> j \<le> endLine (cs0 ! i) \<longrightarrow>
           j < length d \<and> \<not> REGEX_TRAILER_CONT (d ! j)))"
proof -
  from getDocumentChunks_final[of d] obtain cs0 cs
    where s: "scan_chunks d = Some cs0" and g: "getDocumentChunks d = Some cs"
      and len: "length cs = length cs0" and mr: "map chunk_range cs = map chunk_range cs0"
      and fin: "if d = [] then cs = [fake_chunk] else covers cs (length d) \<and> kinds_ok d cs"
    by blast
  have main: "j < length d \<and> d ! j \<noteq> [] \<and> \<not> REGEX_BLANK (d ! j) \<and> \<not> REGEX_TRAILER_CONT (d ! j)"
    if c: "c \<in> set cs" and k: "kind c = Paragraph \<or> kind c = Subject \<or> kind c = Trailers"
      and j: "startLine c \<le> j \<and> j \<le> endLine c" for c j
  proof -
    have ne: "d \<noteq> []"
    proof
      assume "d = []"
      with fin c have "c = fake_chunk" by simp
      with k show False by (simp add: fake_chunk_def)
    qed
    with fin have cv: "covers cs (length d)" and ko: "kinds_ok d cs" by simp_all
    from c obtain q where q: "q < length cs" "c = cs ! q" by (auto simp: in_set_conv_nth)
    from covers_bounds[OF cv q(1)] q(2) j have jl: "j < length d" by simp
    from ko c j k have "line_kind d j = Paragraph"
      unfolding kinds_ok_def by (auto simp: base_kind_def)
    then have "\<not> REGEX_SPLIT (d ! j)" by (simp add: line_kind_Paragraph)
    then have nb: "\<not> REGEX_BLANK (d ! j)" using blank_imp_split by blast
    with jl show ?thesis using trailer_cont_blank empty_blank by metis
  qed
  have last: "j < length d \<and> \<not> REGEX_TRAILER_CONT (d ! j)"
    if i: "lastIndexOf (map kind cs0) Paragraph = Some i"
      and j: "startLine (cs0 ! i) \<le> j \<and> j \<le> endLine (cs0 ! i)" for i j
  proof -
    from lastIndexOf_Some[OF i] have il: "i < length cs0" by simp
    from lastIndexOf_Some[OF i] il have ki: "kind (cs0 ! i) = Paragraph" by simp
    from il len have il': "i < length cs" by simp
    from mr il il' have r: "chunk_range (cs ! i) = chunk_range (cs0 ! i)"
      by (metis nth_map)
    have "kind (cs ! i) = Paragraph \<or> kind (cs ! i) = Trailers"
      using g s i ki il
      by (auto simp: getDocumentChunks_def split: option.splits if_splits)
    moreover from il' have "cs ! i \<in> set cs" by simp
    moreover from r j have "startLine (cs ! i) \<le> j \<and> j \<le> endLine (cs ! i)" by simp
    ultimately show ?thesis using main[of "cs ! i" j] by blast
  qed
  from s g main last show ?thesis by blast
qed

theorem text_chunks_have_no_blank_line_witness:
  "\<exists>cs0 cs. scan_chunks [str ''subject'', [], str ''Fixes: 1'', str ''prose''] = Some cs0 \<and>
     getDocumentChunks [str ''subject'', [], str ''Fixes: 1'', str ''prose''] = Some cs \<and>
     (\<forall>c\<in>set cs. kind c = Paragraph \<or> kind c = Subject \<or> kind c = Trailers \<longrightarrow>
        (\<forall>j. startLine c \<le> j \<and> j \<le> endLine c \<longrightarrow>
           j < length [str ''subject'', [], str ''Fixes: 1'', str ''prose''] \<and>
           [str ''subject'', [], str ''Fixes: 1'', str ''prose''] ! j \<noteq> [] \<and>
           \<not> REGEX_BLANK ([str ''subject'', [], str ''Fixes: 1'', str ''prose''] ! j) \<and>
           \<not> REGEX_TRAILER_CONT ([str ''subject'', [], str ''Fixes: 1'', str ''prose''] ! j))) \<and>
     (\<forall>i. lastIndexOf (map kind cs0) Paragraph = Some i \<longrightarrow>
        (\<forall>j. startLine (cs0 ! i) \<le> j \<and> j \<le> endLine (cs0 ! i) \<longrightarrow>
           j < length [str ''subject'', [], str ''Fixes: 1'', str ''prose''] \<and>
           \<not> REGEX_TRAILER_CONT ([str ''subject'', [], str ''Fixes: 1'', str ''prose''] ! j)))"
  by (rule text_chunks_have_no_blank_line)


section \<open>The trailer decision\<close>

text \<open>
  Claim C1. Let \<open>cs0\<close> be the chunks after the loop of \<open>getDocumentChunks\<close> and \<open>i\<close>
  the index of its last chunk of kind Paragraph. Then \<open>getDocumentChunks\<close> returns the
  same chunks, where the chunk \<open>i\<close> has kind Trailers if and only if, with the lines of
  the chunk scored as the specification says (a first line with a recognized prefix
  counts as a trailer), either there is no non-trailer line and at least one trailer, or
  the prefix is recognized and three times the trailers are at least the non-trailers;
  otherwise the chunk stays a Paragraph. In particular, when the first line of the chunk
  has a recognized prefix and none of the lines after it is a trailer line, the chunk
  becomes Trailers exactly when at most three lines follow: with three it does, with four
  it does not.
\<close>

theorem trailers_decision:
  assumes s: "scan_chunks d = Some cs0" and li: "lastIndexOf (map kind cs0) Paragraph = Some i"
  shows "\<exists>cs. getDocumentChunks d = Some cs \<and> length cs = length cs0 \<and> i < length cs \<and>
           chunk_range (cs ! i) = chunk_range (cs0 ! i) \<and>
           (kind (cs ! i) = Trailers \<or> kind (cs ! i) = Paragraph) \<and>
           (kind (cs ! i) = Trailers \<longleftrightarrow>
              (case spec_counts (chunk_lines d (cs0 ! i)) of
                 (trailerCount, nonTrailerCount) \<Rightarrow>
                   (nonTrailerCount = 0 \<and> trailerCount > 0) \<or>
                   (spec_recognized_prefix (chunk_lines d (cs0 ! i)) \<and>
                    3 * trailerCount \<ge> nonTrailerCount))) \<and>
           (\<forall>p rest. chunk_lines d (cs0 ! i) = p # rest \<and>
                     list_ex (startsWith p) GIT_GENERATED_PREFIXES \<and>
                     (\<forall>l\<in>set rest. \<not> REGEX_TRAILER l) \<longrightarrow>
                       (kind (cs ! i) = Trailers \<longleftrightarrow> length rest \<le> 3))"
proof -
  from scan_chunks_inv[of d] s obtain st where cs0: "cs0 = chunks st"
    and inv: "scan_inv d (length d) st" by auto
  from lastIndexOf_Some[OF li] have il: "i < length cs0" by simp
  from lastIndexOf_Some[OF li] il have ki: "kind (cs0 ! i) = Paragraph" by simp
  have ne: "d \<noteq> []"
  proof
    assume "d = []"
    with inv cs0 have "cs0 = [fake_chunk]" by (simp add: scan_inv_def)
    with il ki show False by (simp add: fake_chunk_def)
  qed
  with inv cs0 have cv: "covers cs0 (length d)" and ko: "kinds_ok d cs0"
    by (simp_all add: scan_inv_def)
  let ?c = "cs0 ! i"
  from il have mem: "?c \<in> set cs0" by simp
  from cv mem have se: "startLine ?c \<le> endLine ?c" by (simp add: covers_def)
  have el: "endLine ?c < length d" by (rule covers_bounds[OF cv il])
  have nc: "\<forall>j. startLine ?c \<le> j \<and> j \<le> endLine ?c \<longrightarrow> \<not> REGEX_TRAILER_CONT (d ! j)"
  proof (intro allI impI)
    fix j assume j: "startLine ?c \<le> j \<and> j \<le> endLine ?c"
    with ko mem ki have "line_kind d j = Paragraph"
      unfolding kinds_ok_def by (auto simp: base_kind_def)
    then have "\<not> REGEX_SPLIT (d ! j)" by (simp add: line_kind_Paragraph)
    then show "\<not> REGEX_TRAILER_CONT (d ! j)"
      using blank_imp_split trailer_cont_blank by blast
  qed
  let ?b = "spec_is_trailers (chunk_lines d ?c)"
  have it: "isTrailersChunk ?c d = Some ?b" by (rule isTrailersChunk_spec[OF se el nc])
  define cs where "cs = (if ?b then cs0[i := ?c\<lparr>kind := Trailers\<rparr>] else cs0)"
  have g: "getDocumentChunks d = Some cs"
    using s li it by (simp add: getDocumentChunks_def cs_def)
  have 1: "length cs = length cs0" "i < length cs" using il by (simp_all add: cs_def)
  have 2: "chunk_range (cs ! i) = chunk_range ?c" using il by (simp add: cs_def)
  have 3: "kind (cs ! i) = Trailers \<or> kind (cs ! i) = Paragraph" using il ki by (simp add: cs_def)
  have 4: "kind (cs ! i) = Trailers \<longleftrightarrow> ?b" using il ki by (simp add: cs_def)
  have 5: "\<forall>p rest. chunk_lines d ?c = p # rest \<and>
                     list_ex (startsWith p) GIT_GENERATED_PREFIXES \<and>
                     (\<forall>l\<in>set rest. \<not> REGEX_TRAILER l) \<longrightarrow>
                       (kind (cs ! i) = Trailers \<longleftrightarrow> length rest \<le> 3)"
  proof (intro allI impI, elim conjE)
    fix p rest
    assume cl: "chunk_lines d ?c = p # rest" and pre: "list_ex (startsWith p) GIT_GENERATED_PREFIXES"
      and prose: "\<forall>l\<in>set rest. \<not> REGEX_TRAILER l"
    have "\<forall>l\<in>set rest. \<not> REGEX_TRAILER l \<and> \<not> REGEX_TRAILER_CONT l"
    proof
      fix l assume "l \<in> set rest"
      with cl have "l \<in> set (chunk_lines d ?c)" by simp
      from chunk_lines_set[OF this el] nc have "\<not> REGEX_TRAILER_CONT l" by blast
      with prose \<open>l \<in> set rest\<close> show "\<not> REGEX_TRAILER l \<and> \<not> REGEX_TRAILER_CONT l" by simp
    qed
    from spec_score_prose[OF this] have "spec_score True rest = (0, length rest)" .
    with cl pre have "?b \<longleftrightarrow> length rest \<le> 3"
      by (auto simp: spec_is_trailers_def spec_counts_def spec_recognized_prefix_def)
    with 4 show "kind (cs ! i) = Trailers \<longleftrightarrow> length rest \<le> 3" by simp
  qed
  from 4 have dec: "kind (cs ! i) = Trailers \<longleftrightarrow>
              (case spec_counts (chunk_lines d (cs0 ! i)) of
                 (trailerCount, nonTrailerCount) \<Rightarrow>
                   (nonTrailerCount = 0 \<and> trailerCount > 0) \<or>
                   (spec_recognized_prefix (chunk_lines d (cs0 ! i)) \<and>
                    3 * trailerCount \<ge> nonTrailerCount))"
    by (simp only: spec_is_trailers_def)
  show ?thesis
    by (rule exI[of _ cs]) (intro conjI g 1 2 3 dec 5)
qed

theorem trailers_decision_witness:
  "scan_chunks [str ''subject'', [], str ''Signed-off-by: A <a@x.com>'', str ''prose one'',
                str ''prose two'', str ''prose three''] =
     Some [\<lparr>chunk_range = \<lparr>range_start = \<lparr>line = 0, character = 0\<rparr>, range_end = \<lparr>line = 0, character = 7\<rparr>\<rparr>, kind = Subject\<rparr>,
           \<lparr>chunk_range = \<lparr>range_start = \<lparr>line = 1, character = 0\<rparr>, range_end = \<lparr>line = 1, character = 0\<rparr>\<rparr>, kind = Blank\<rparr>,
           \<lparr>chunk_range = \<lparr>range_start = \<lparr>line = 2, character = 0\<rparr>, range_end = \<lparr>line = 5, character = 11\<rparr>\<rparr>, kind = Paragraph\<rparr>] \<and>
   lastIndexOf [Subject, Blank, Paragraph] Paragraph = Some 2 \<and>
   (\<exists>cs. getDocumentChunks [str ''subject'', [], str ''Signed-off-by: A <a@x.com>'', str ''prose one'',
                             str ''prose two'', str ''prose three''] = Some cs \<and>
          kind (cs ! 2) = Trailers) \<and>
   scan_chunks [str ''subject'', [], str ''Signed-off-by: A <a@x.com>'', str ''prose one'',
                str ''prose two'', str ''prose three'', str ''prose four''] =
     Some [\<lparr>chunk_range = \<lparr>range_start = \<lparr>line = 0, character = 0\<rparr>, range_end = \<lparr>line = 0, character = 7\<rparr>\<rparr>, kind = Subject\<rparr>,
           \<lparr>chunk_range = \<lparr>range_start = \<lparr>line = 1, character = 0\<rparr>, range_end = \<lparr>line = 1, character = 0\<rparr>\<rparr>, kind = Blank\<rparr>,
           \<lparr>chunk_range = \<lparr>range_start = \<lparr>line = 2, character = 0\<rparr>, range_end = \<lparr>line = 6, character = 10\<rparr>\<rparr>, kind = Paragraph\<rparr>] \<and>
   (\<exists>cs. getDocumentChunks [str ''subject'', [], str ''Signed-off-by: A <a@x.com>'', str ''prose one'',
                             str ''prose two'', str ''prose three'', str ''prose four''] = Some cs \<and>
          kind (cs ! 2) = Paragraph)"
proof -
  let ?d3 = "[str ''subject'', [], str ''Signed-off-by: A <a@x.com>'', str ''prose one'',
                str ''prose two'', str ''prose three'']"
  let ?d4 = "[str ''subject'', [], str ''Signed-off-by: A <a@x.com>'', str ''prose one'',
                str ''prose two'', str ''prose three'', str ''prose four'']"
  let ?c3 = "[\<lparr>chunk_range = \<lparr>range_start = \<lparr>line = 0, character = 0\<rparr>, range_end = \<lparr>line = 0, character = 7\<rparr>\<rparr>, kind = Subject\<rparr>,
           \<lparr>chunk_range = \<lparr>range_start = \<lparr>line = 1, character = 0\<rparr>, range_end = \<lparr>line = 1, character = 0\<rparr>\<rparr>, kind = Blank\<rparr>,
           \<lparr>chunk_range = \<lparr>range_start = \<lparr>line = 2, character = 0\<rparr>, range_end = \<lparr>line = 5, character = 11\<rparr>\<rparr>, kind = Paragraph\<rparr>]"
  let ?c4 = "[\<lparr>chunk_range = \<lparr>range_start = \<lparr>line = 0, character = 0\<rparr>, range_end = \<lparr>line = 0, character = 7\<rparr>\<rparr>, kind = Subject\<rparr>,
           \<lparr>chunk_range = \<lparr>range_start = \<lparr>line = 1, character = 0\<rparr>, range_end = \<lparr>line = 1, character = 0\<rparr>\<rparr>, kind = Blank\<rparr>,
           \<lparr>chunk_range = \<lparr>range_start = \<lparr>line = 2, character = 0\<rparr>, range_end = \<lparr>line = 6, character = 10\<rparr>\<rparr>, kind = Paragraph\<rparr>]"
  have s3: "scan_chunks ?d3 = Some ?c3" by (simp add: chunk_eval)
  have s4: "scan_chunks ?d4 = Some ?c4" by (simp add: chunk_eval)
  have l3: "lastIndexOf (map kind ?c3) Paragraph = Some 2" by simp
  have l4: "lastIndexOf (map kind ?c4) Paragraph = Some 2" by simp
  have p: "list_ex (startsWith (str ''Signed-off-by: A <a@x.com>'')) GIT_GENERATED_PREFIXES"
    by (simp add: GIT_GENERATED_PREFIXES_def startsWith_def str_def)
  have np: "\<not> REGEX_TRAILER (str ''prose one'')" "\<not> REGEX_TRAILER (str ''prose two'')"
    "\<not> REGEX_TRAILER (str ''prose three'')" "\<not> REGEX_TRAILER (str ''prose four'')"
    by (simp_all add: REGEX_TRAILER_def str_def is_key_char_def is_space_def)
  have cl3: "chunk_lines ?d3 (?c3 ! 2) = str ''Signed-off-by: A <a@x.com>'' #
       [str ''prose one'', str ''prose two'', str ''prose three'']"
    by (simp add: chunk_lines_def)
  have cl4: "chunk_lines ?d4 (?c4 ! 2) = str ''Signed-off-by: A <a@x.com>'' #
       [str ''prose one'', str ''prose two'', str ''prose three'', str ''prose four'']"
    by (simp add: chunk_lines_def)
  from trailers_decision[OF s3 l3] obtain cs3 where g3: "getDocumentChunks ?d3 = Some cs3"
    and r3: "\<forall>p rest. chunk_lines ?d3 (?c3 ! 2) = p # rest \<and>
                     list_ex (startsWith p) GIT_GENERATED_PREFIXES \<and>
                     (\<forall>l\<in>set rest. \<not> REGEX_TRAILER l) \<longrightarrow>
                       (kind (cs3 ! 2) = Trailers \<longleftrightarrow> length rest \<le> 3)" by blast
  from r3 cl3 p np have k3: "kind (cs3 ! 2) = Trailers" by simp
  from trailers_decision[OF s4 l4] obtain cs4 where g4: "getDocumentChunks ?d4 = Some cs4"
    and t4: "kind (cs4 ! 2) = Trailers \<or> kind (cs4 ! 2) = Paragraph"
    and r4: "\<forall>p rest. chunk_lines ?d4 (?c4 ! 2) = p # rest \<and>
                     list_ex (startsWith p) GIT_GENERATED_PREFIXES \<and>
                     (\<forall>l\<in>set rest. \<not> REGEX_TRAILER l) \<longrightarrow>
                       (kind (cs4 ! 2) = Trailers \<longleftrightarrow> length rest \<le> 3)" by blast
  from r4 cl4 p np have "kind (cs4 ! 2) \<noteq> Trailers" by simp
  with t4 have k4: "kind (cs4 ! 2) = Paragraph" by simp
  from s3 s4 l3 g3 k3 g4 k4 show ?thesis by simp
qed


section \<open>Exactly one Subject chunk\<close>

text \<open>
  Claim C4. No document has more than one chunk of kind Subject. When some line \<open>k\<close> of
  the document is neither blank nor a comment and no cut line comes before it, there is
  exactly one chunk of kind Subject; all chunks before it are Blank or Comment chunks, so
  it is the first chunk that would otherwise have been a Paragraph; it starts at or before
  line \<open>k\<close>, at the first line of the document that is neither blank nor a comment.
\<close>

theorem exactly_one_subject:
  "\<exists>cs. getDocumentChunks d = Some cs \<and>
     length (filter (\<lambda>c. kind c = Subject) cs) \<le> 1 \<and>
     (k < length d \<and> \<not> REGEX_BLANK (d ! k) \<and> \<not> REGEX_SPLIT (d ! k) \<and>
      (\<forall>i<k. \<not> REGEX_CUT_LINE (d ! i)) \<longrightarrow>
        (\<exists>m<length cs. kind (cs ! m) = Subject \<and>
           length (filter (\<lambda>c. kind c = Subject) cs) = 1 \<and>
           (\<forall>m'<m. kind (cs ! m') = Blank \<or> kind (cs ! m') = Comment) \<and>
           startLine (cs ! m) \<le> k \<and>
           \<not> REGEX_BLANK (d ! startLine (cs ! m)) \<and>
           \<not> REGEX_SPLIT (d ! startLine (cs ! m)) \<and>
           (\<forall>j<startLine (cs ! m). REGEX_SPLIT (d ! j))))"
proof -
  from getDocumentChunks_final[of d] obtain cs
    where g: "getDocumentChunks d = Some cs" and sf: "subject_first (map kind cs)"
      and fin: "if d = [] then cs = [fake_chunk] else covers cs (length d) \<and> kinds_ok d cs"
    by blast
  have cnt: "length (filter (\<lambda>c. kind c = Subject) cs) = length (filter (\<lambda>k. k = Subject) (map kind cs))"
    by (simp add: filter_map comp_def)
  with subject_first_count[OF sf] have le1: "length (filter (\<lambda>c. kind c = Subject) cs) \<le> 1" by simp
  have main: "\<exists>m<length cs. kind (cs ! m) = Subject \<and>
           length (filter (\<lambda>c. kind c = Subject) cs) = 1 \<and>
           (\<forall>m'<m. kind (cs ! m') = Blank \<or> kind (cs ! m') = Comment) \<and>
           startLine (cs ! m) \<le> k \<and>
           \<not> REGEX_BLANK (d ! startLine (cs ! m)) \<and>
           \<not> REGEX_SPLIT (d ! startLine (cs ! m)) \<and>
           (\<forall>j<startLine (cs ! m). REGEX_SPLIT (d ! j))"
    if kl: "k < length d" and ns: "\<not> REGEX_SPLIT (d ! k)" and nc: "\<forall>i<k. \<not> REGEX_CUT_LINE (d ! i)"
  proof -
    from kl have "d \<noteq> []" by auto
    with fin have cv: "covers cs (length d)" and ko: "kinds_ok d cs" by simp_all
    from cv have c: "contiguous cs" and o: "\<forall>c\<in>set cs. startLine c \<le> endLine c"
      by (simp_all add: covers_def)
    from nc have nd: "\<not> in_diff d (Suc k)"
      by (intro not_in_diffI) (simp add: REGEX_CUT_LINE_def)
    with ns have lk: "line_kind d k = Paragraph" by (simp add: line_kind_Paragraph)
    from covers_exists[OF cv kl] obtain q
      where q: "q < length cs" "startLine (cs ! q) \<le> k" "k \<le> endLine (cs ! q)" by blast
    with ko lk have bq: "base_kind (kind (cs ! q)) = Paragraph"
      unfolding kinds_ok_def by (metis nth_mem)
    from subject_first_index[OF sf, of q] q(1) bq obtain m
      where m: "m \<le> q" "kind (cs ! m) = Subject"
        "\<forall>m'<m. base_kind (kind (cs ! m')) \<noteq> Paragraph"
        "\<forall>m'<length cs. kind (cs ! m') = Subject \<longrightarrow> m' = m"
      by auto
    from m(1) q(1) have ml: "m < length cs" by simp
    then have mem: "cs ! m \<in> set cs" by simp
    with m(2) have "filter (\<lambda>c. kind c = Subject) cs \<noteq> []" by (auto simp: filter_empty_conv)
    with le1 have one: "length (filter (\<lambda>c. kind c = Subject) cs) = 1"
      by (metis One_nat_def Suc_leI le_antisym length_greater_0_conv)
    have sk: "startLine (cs ! m) \<le> k"
    proof (cases "m = q")
      case True
      with q(2) show ?thesis by simp
    next
      case False
      with m(1) have "m < q" by simp
      from chunks_increasing[OF c o q(1) this] o mem q(2) show ?thesis
        by (meson le_trans less_imp_le_nat)
    qed
    from o mem have se: "startLine (cs ! m) \<le> endLine (cs ! m)" by simp
    with ko mem m(2) have "line_kind d (startLine (cs ! m)) = Paragraph"
      unfolding kinds_ok_def by (auto simp: base_kind_def)
    then have s_ns: "\<not> REGEX_SPLIT (d ! startLine (cs ! m))" by (simp add: line_kind_Paragraph)
    then have s_nb: "\<not> REGEX_BLANK (d ! startLine (cs ! m))" using blank_imp_split by blast
    have before: "line_kind d j = base_kind (kind (cs ! p)) \<and> p < m"
      if p: "p < length cs" "startLine (cs ! p) \<le> j" "j \<le> endLine (cs ! p)"
        and j: "j < startLine (cs ! m)" for p j
    proof -
      have "p < m"
      proof (rule ccontr)
        assume "\<not> p < m"
        then consider "p = m" | "m < p" by (metis nat_neq_iff)
        then show False
        proof cases
          case 1
          with p(2) j show False by simp
        next
          case 2
          from chunks_increasing[OF c o p(1) 2] se p(2) j show False by simp
        qed
      qed
      moreover from ko p have "line_kind d j = base_kind (kind (cs ! p))"
        unfolding kinds_ok_def by (metis nth_mem)
      ultimately show ?thesis by simp
    qed
    have early: "\<forall>m'<m. kind (cs ! m') = Blank \<or> kind (cs ! m') = Comment"
    proof (intro allI impI)
      fix m' assume m': "m' < m"
      with ml have m'l: "m' < length cs" by simp
      then have mem': "cs ! m' \<in> set cs" by simp
      from chunks_increasing[OF c o ml m'] sk have "endLine (cs ! m') < k" by simp
      with nd have "\<not> in_diff d (Suc (endLine (cs ! m')))"
        using in_diff_mono[of d "Suc (endLine (cs ! m'))" "Suc k"] by auto
      moreover from ko mem' o have "line_kind d (endLine (cs ! m')) = base_kind (kind (cs ! m'))"
        unfolding kinds_ok_def by blast
      ultimately have "base_kind (kind (cs ! m')) \<noteq> Diff"
        by (metis line_kind_def base_kind_Diff GitChunkKind.distinct raw_kind_def)
      with m(3) m' show "kind (cs ! m') = Blank \<or> kind (cs ! m') = Comment"
        by (cases "kind (cs ! m')") (auto simp: base_kind_def)
    qed
    have pre: "\<forall>j<startLine (cs ! m). REGEX_SPLIT (d ! j)"
    proof (intro allI impI)
      fix j assume j: "j < startLine (cs ! m)"
      with sk kl have jl: "j < length d" and jk: "j < k" by simp_all
      from covers_exists[OF cv jl] obtain p
        where p: "p < length cs" "startLine (cs ! p) \<le> j" "j \<le> endLine (cs ! p)" by blast
      from before[OF p j] m(3) have np: "line_kind d j \<noteq> Paragraph" by auto
      from nd jk have "\<not> in_diff d (Suc j)"
        using in_diff_mono[of d "Suc j" "Suc k"] by auto
      with np show "REGEX_SPLIT (d ! j)" by (simp add: line_kind_Paragraph)
    qed
    from ml m(2) one early sk s_nb s_ns pre show ?thesis by blast
  qed
  from g le1 main show ?thesis by blast
qed

theorem exactly_one_subject_witness:
  "(2::nat) < length [[], str ''# note'', str ''subject'', [], str ''body''] \<and>
   \<not> REGEX_BLANK ([[], str ''# note'', str ''subject'', [], str ''body''] ! 2) \<and>
   \<not> REGEX_SPLIT ([[], str ''# note'', str ''subject'', [], str ''body''] ! 2) \<and>
   \<not> REGEX_CUT_LINE ([[], str ''# note'', str ''subject'', [], str ''body''] ! 0) \<and>
   \<not> REGEX_CUT_LINE ([[], str ''# note'', str ''subject'', [], str ''body''] ! 1) \<and>
   (\<exists>cs. getDocumentChunks [[], str ''# note'', str ''subject'', [], str ''body''] = Some cs \<and>
      (\<exists>m<length cs. kind (cs ! m) = Subject \<and>
         length (filter (\<lambda>c. kind c = Subject) cs) = 1 \<and>
         (\<forall>m'<m. kind (cs ! m') = Blank \<or> kind (cs ! m') = Comment) \<and>
         startLine (cs ! m) \<le> 2))"
proof -
  let ?d = "[[], str ''# note'', str ''subject'', [], str ''body'']"
  have 1: "(2::nat) < length ?d" by simp
  have 2: "\<not> REGEX_BLANK (?d ! 2)" by (simp add: REGEX_BLANK_def str_def is_space_def)
  have 3: "\<not> REGEX_SPLIT (?d ! 2)" by (simp add: REGEX_SPLIT_def str_def is_space_def)
  have 4: "\<forall>i<2. \<not> REGEX_CUT_LINE (?d ! i)"
    by (simp add: REGEX_CUT_LINE_def cut_line_def str_def less_Suc_eq numeral_2_eq_2)
  have 5: "\<not> REGEX_CUT_LINE (?d ! 0)" "\<not> REGEX_CUT_LINE (?d ! 1)"
    by (simp_all add: REGEX_CUT_LINE_def cut_line_def str_def)
  from exactly_one_subject[of ?d 2] 1 2 3 4 5 show ?thesis by blast
qed


section \<open>Which chunks are edited\<close>

text \<open>
  Claim C7, as the specification states it, fails: a chunk of kind Trailers does get an
  edit. The document (with line feeds as its ends of line) with the lines \<open>subject\<close>,
  an empty line and \<open>Signed-off-by: A\<close> has a Subject, a Blank and a Trailers chunk, and
  \<open>formatGitCommitMessage\<close> returns three edits; the third replaces the range of the
  Trailers chunk with its own text.
\<close>

theorem trailers_chunk_gets_an_edit:
  "getDocumentChunks [str ''subject'', [], str ''Signed-off-by: A''] = Some
    [\<lparr>chunk_range = \<lparr>range_start = \<lparr>line = 0, character = 0\<rparr>, range_end = \<lparr>line = 0, character = 7\<rparr>\<rparr>, kind = Subject\<rparr>,
     \<lparr>chunk_range = \<lparr>range_start = \<lparr>line = 1, character = 0\<rparr>, range_end = \<lparr>line = 1, character = 0\<rparr>\<rparr>, kind = Blank\<rparr>,
     \<lparr>chunk_range = \<lparr>range_start = \<lparr>line = 2, character = 0\<rparr>, range_end = \<lparr>line = 2, character = 16\<rparr>\<rparr>, kind = Trailers\<rparr>] \<and>
   formatGitCommitMessage LF [str ''subject'', [], str ''Signed-off-by: A''] = Some
    [\<lparr>edit_range = \<lparr>range_start = \<lparr>line = 0, character = 0\<rparr>, range_end = \<lparr>line = 0, character = 7\<rparr>\<rparr>, newText = str ''subject''\<rparr>,
     \<lparr>edit_range = \<lparr>range_start = \<lparr>line = 1, character = 0\<rparr>, range_end = \<lparr>line = 1, character = 0\<rparr>\<rparr>, newText = []\<rparr>,
     \<lparr>edit_range = \<lparr>range_start = \<lparr>line = 2, character = 0\<rparr>, range_end = \<lparr>line = 2, character = 16\<rparr>\<rparr>, newText = str ''Signed-off-by: A''\<rparr>]"
proof -
  have g: "getDocumentChunks [str ''subject'', [], str ''Signed-off-by: A''] = Some
    [\<lparr>chunk_range = \<lparr>range_start = \<lparr>line = 0, character = 0\<rparr>, range_end = \<lparr>line = 0, character = 7\<rparr>\<rparr>, kind = Subject\<rparr>,
     \<lparr>chunk_range = \<lparr>range_start = \<lparr>line = 1, character = 0\<rparr>, range_end = \<lparr>line = 1, character = 0\<rparr>\<rparr>, kind = Blank\<rparr>,
     \<lparr>chunk_range = \<lparr>range_start = \<lparr>line = 2, character = 0\<rparr>, range_end = \<lparr>line = 2, character = 16\<rparr>\<rparr>, kind = Trailers\<rparr>]"
    by (simp add: chunk_eval)
  show ?thesis
    unfolding formatGitCommitMessage_def g
    by (simp add: List.map_filter_simps chunk_edit_def getText_def line_or_empty_def
        formatSubjectChunk_def trim_def is_space_def str_def)
qed

text \<open>
  Claim C7, amended. For every document and either end of line sequence,
  \<open>formatGitCommitMessage\<close> returns, and its edits are, in order, one
  edit for every chunk whose kind is neither Comment nor Diff, on the range of the chunk:
  a Subject chunk is replaced with its collapsed text, a Paragraph chunk with its wrapped
  text, a Trailers chunk with its own text, a Blank chunk with the empty text. There is no
  edit for a chunk of kind Comment or Diff.
\<close>

theorem edits_for_all_but_comment_and_diff:
  "\<exists>cs. getDocumentChunks d = Some cs \<and>
     formatGitCommitMessage eol d =
       Some (map (\<lambda>c. \<lparr>edit_range = chunk_range c,
                       newText =
                         (if kind c = Subject then formatSubjectChunk (getText eol d (chunk_range c))
                          else if kind c = Paragraph then formatParagraphChunk (getText eol d (chunk_range c))
                          else if kind c = Trailers then getText eol d (chunk_range c)
                          else [])\<rparr>)
                 (filter (\<lambda>c. kind c \<noteq> Comment \<and> kind c \<noteq> Diff) cs))"
proof -
  from getDocumentChunks_final[of d] obtain cs where g: "getDocumentChunks d = Some cs" by blast
  have "List.map_filter (chunk_edit eol d) cs =
        map (\<lambda>c. \<lparr>edit_range = chunk_range c,
                       newText =
                         (if kind c = Subject then formatSubjectChunk (getText eol d (chunk_range c))
                          else if kind c = Paragraph then formatParagraphChunk (getText eol d (chunk_range c))
                          else if kind c = Trailers then getText eol d (chunk_range c)
                          else [])\<rparr>)
                 (filter (\<lambda>c. kind c \<noteq> Comment \<and> kind c \<noteq> Diff) cs)"
  proof (induction cs)
    case Nil
    then show ?case by (simp add: List.map_filter_simps)
  next
    case (Cons c cs)
    then show ?case
      by (cases "kind c") (simp_all add: List.map_filter_simps chunk_edit_def)
  qed
  with g show ?thesis by (simp add: formatGitCommitMessage_def)
qed

theorem edits_for_all_but_comment_and_diff_witness:
  "\<exists>cs. getDocumentChunks [str ''subject'', str ''# note'', str ''Signed-off-by: A''] = Some cs \<and>
     formatGitCommitMessage CRLF [str ''subject'', str ''# note'', str ''Signed-off-by: A''] =
       Some (map (\<lambda>c. \<lparr>edit_range = chunk_range c,
                       newText =
                         (if kind c = Subject
                          then formatSubjectChunk
                                 (getText CRLF [str ''subject'', str ''# note'', str ''Signed-off-by: A''] (chunk_range c))
                          else if kind c = Paragraph
                          then formatParagraphChunk
                                 (getText CRLF [str ''subject'', str ''# note'', str ''Signed-off-by: A''] (chunk_range c))
                          else if kind c = Trailers
                          then getText CRLF [str ''subject'', str ''# note'', str ''Signed-off-by: A''] (chunk_range c)
                          else [])\<rparr>)
                 (filter (\<lambda>c. kind c \<noteq> Comment \<and> kind c \<noteq> Diff) cs))"
  by (rule edits_for_all_but_comment_and_diff)


section \<open>A document without lines\<close>




section \<open>Two calls of the whole-document formatter\<close>

text \<open>
  Claim C9 says that two successive calls of the whole-document formatter on the same
  text give the same result. The code does otherwise: its \<open>REGEX_SPLIT\<close> has the \<open>g\<close>
  flag, so \<open>test\<close> leaves a \<open>lastIndex\<close> behind in the expression object, which the
  next call starts from. On the text \<open>#\<close> the first call (which starts with
  \<open>lastIndex = 0\<close>) returns a line feed followed by \<open>#\<close> and leaves
  \<open>lastIndex = 1\<close>; the second call, on the same text, returns \<open>#\<close>.
\<close>

theorem successive_calls_differ:
  "formatGitCommitMessage_text (str ''#'') 0 = (10 # str ''#'', 1) \<and>
   formatGitCommitMessage_text (str ''#'') 1 = (str ''#'', 1)"
  by (simp add: text_eval)


section \<open>Formatting a formatted text again\<close>

text \<open>
  Claim C6 says that the whole-document formatter is idempotent. The code is not: for
  every blank or comment line it pushes the buffer, also when the buffer is empty, and
  every pushed entry becomes a line of the output. The empty text becomes one line feed,
  and one line feed becomes two; the text of the two comment lines \<open># a\<close> and \<open># b\<close>
  gets one line feed in front, and that result gets a second one. In all four calls
  \<open>REGEX_SPLIT\<close> starts and ends with \<open>lastIndex = 0\<close>.
\<close>

theorem formatting_twice_differs:
  "formatGitCommitMessage_text [] 0 = ([10], 0) \<and>
   formatGitCommitMessage_text [10] 0 = ([10, 10], 0) \<and>
   formatGitCommitMessage_text (str ''# a'' @ 10 # str ''# b'') 0 = (10 # str ''# a'' @ 10 # str ''# b'', 0) \<and>
   formatGitCommitMessage_text (10 # str ''# a'' @ 10 # str ''# b'') 0 = (10 # 10 # str ''# a'' @ 10 # str ''# b'', 0)"
  by (simp add: text_eval)


section \<open>Wrapping a paragraph\<close>

subsection \<open>Texts with single spaces\<close>

lemma is_space_simps [simp]: "is_space 32" "is_space 10"
  by (simp_all add: is_space_def)

lemma only_spaces_no_nl: "only_spaces s \<Longrightarrow> 10 \<notin> set s"
proof
  assume "only_spaces s" "10 \<in> set s"
  then have "(10::nat) = 32" unfolding only_spaces_def by (metis is_space_simps(2))
  then show False by simp
qed

lemma only_spaces_subset: "only_spaces s \<Longrightarrow> set t \<subseteq> set s \<Longrightarrow> only_spaces t"
  unfolding only_spaces_def by blast

lemma single_spaced_drop: "single_spaced s \<Longrightarrow> single_spaced (drop n s)"
  unfolding single_spaced_def
proof (intro allI impI)
  fix i assume a: "\<forall>i. Suc i < length s \<longrightarrow> \<not> (is_space (s ! i) \<and> is_space (s ! Suc i))"
    and i: "Suc i < length (drop n s)"
  then have "Suc (n + i) < length s" by simp
  with a have "\<not> (is_space (s ! (n + i)) \<and> is_space (s ! Suc (n + i)))" by blast
  with i show "\<not> (is_space (drop n s ! i) \<and> is_space (drop n s ! Suc i))" by simp
qed

lemma single_spaced_take: "single_spaced s \<Longrightarrow> single_spaced (take n s)"
  unfolding single_spaced_def by simp

lemma single_spaced_Cons:
  "single_spaced (a # r) \<longleftrightarrow> (r \<noteq> [] \<longrightarrow> \<not> (is_space a \<and> is_space (hd r))) \<and> single_spaced r"
proof
  assume s: "single_spaced (a # r)"
  have "single_spaced r" using single_spaced_drop[OF s, of 1] by simp
  moreover have "\<not> (is_space a \<and> is_space (hd r))" if "r \<noteq> []"
  proof -
    from that have "Suc 0 < length (a # r)" by simp
    with s have "\<not> (is_space ((a # r) ! 0) \<and> is_space ((a # r) ! Suc 0))"
      unfolding single_spaced_def by blast
    with that show ?thesis by (simp add: hd_conv_nth)
  qed
  ultimately show "(r \<noteq> [] \<longrightarrow> \<not> (is_space a \<and> is_space (hd r))) \<and> single_spaced r" by simp
next
  assume h: "(r \<noteq> [] \<longrightarrow> \<not> (is_space a \<and> is_space (hd r))) \<and> single_spaced r"
  show "single_spaced (a # r)"
    unfolding single_spaced_def
  proof (intro allI impI)
    fix i assume i: "Suc i < length (a # r)"
    show "\<not> (is_space ((a # r) ! i) \<and> is_space ((a # r) ! Suc i))"
    proof (cases i)
      case 0
      with i have "r \<noteq> []" by auto
      with h 0 show ?thesis by (simp add: hd_conv_nth)
    next
      case (Suc j)
      with i have "Suc j < length r" by simp
      with h have "\<not> (is_space (r ! j) \<and> is_space (r ! Suc j))"
        unfolding single_spaced_def by blast
      with Suc show ?thesis by simp
    qed
  qed
qed

lemma single_spaced_Nil [simp]: "single_spaced []"
  by (simp add: single_spaced_def)

subsection \<open>Collapsing and trimming\<close>

lemma hd_dropWhile_space: "dropWhile is_space s \<noteq> [] \<Longrightarrow> \<not> is_space (hd (dropWhile is_space s))"
  by (rule hd_dropWhile)

lemma replace_spaces_Nil_iff: "replace_spaces t = [] \<longleftrightarrow> t = []"
  by (cases t) simp_all

lemma hd_replace_spaces:
  "t \<noteq> [] \<Longrightarrow> is_space (hd (replace_spaces t)) = is_space (hd t)"
  by (cases t) simp_all

lemma only_spaces_replace_spaces: "only_spaces (replace_spaces t)"
  by (induction t rule: replace_spaces.induct) (simp_all add: only_spaces_def)

lemma single_spaced_replace_spaces: "single_spaced (replace_spaces t)"
proof (induction t rule: replace_spaces.induct)
  case 1
  then show ?case by simp
next
  case (2 c cs)
  show ?case
  proof (cases "is_space c")
    case True
    let ?r = "dropWhile is_space cs"
    have "\<not> is_space (hd (replace_spaces ?r))" if "replace_spaces ?r \<noteq> []"
    proof -
      from that have ne: "?r \<noteq> []" by (simp add: replace_spaces_Nil_iff)
      with hd_replace_spaces[OF ne] hd_dropWhile_space[OF ne] show ?thesis by simp
    qed
    with 2 True show ?thesis by (simp add: single_spaced_Cons)
  next
    case False
    with 2 show ?thesis by (simp add: single_spaced_Cons)
  qed
qed

lemma trim_as_take_drop:
  "\<exists>a b. trim s = take b (drop a s) \<and> drop a s = dropWhile is_space s"
proof -
  let ?u = "dropWhile is_space s"
  have u: "?u = drop (length (takeWhile is_space s)) s" by (rule dropWhile_eq_drop)
  have "dropWhile is_space (rev ?u) = drop (length (takeWhile is_space (rev ?u))) (rev ?u)"
    by (rule dropWhile_eq_drop)
  then have "trim s = take (length ?u - length (takeWhile is_space (rev ?u))) ?u"
    by (simp add: trim_def rev_drop)
  with u show ?thesis by metis
qed

lemma trim_normal:
  assumes "only_spaces s" "single_spaced s"
  shows "only_spaces (trim s)" "single_spaced (trim s)" "trim s = [] \<or> \<not> is_space (hd (trim s))"
proof -
  from trim_as_take_drop[of s] obtain a b
    where t: "trim s = take b (drop a s)" and d: "drop a s = dropWhile is_space s" by blast
  have "set (trim s) \<subseteq> set s" unfolding t
    by (meson set_take_subset set_drop_subset subset_trans)
  with assms(1) show "only_spaces (trim s)" by (rule only_spaces_subset)
  show "single_spaced (trim s)" unfolding t
    by (intro single_spaced_take single_spaced_drop assms(2))
  show "trim s = [] \<or> \<not> is_space (hd (trim s))"
  proof (cases "trim s = []")
    case False
    with t have ne: "dropWhile is_space s \<noteq> []" "b \<noteq> 0" using d by auto
    then have "hd (trim s) = hd (dropWhile is_space s)" unfolding t d by (cases b) (simp_all add: hd_take)
    with hd_dropWhile_space[OF ne(1)] show ?thesis by simp
  qed simp
qed

subsection \<open>Lines\<close>

lemma split_nl_not_Nil [simp]: "split_nl s \<noteq> []"
  by (induction s) (auto split: list.splits)

lemma split_nl_Cons:
  "c \<noteq> 10 \<Longrightarrow> split_nl (c # cs) = (c # hd (split_nl cs)) # tl (split_nl cs)"
  by (cases "split_nl cs") simp_all

lemma split_nl_no_nl: "10 \<notin> set a \<Longrightarrow> split_nl a = [a]"
  by (induction a) (simp_all add: split_nl_Cons)

lemma split_nl_append: "10 \<notin> set a \<Longrightarrow> split_nl (a @ 10 # b) = a # split_nl b"
  by (induction a) (simp_all add: split_nl_Cons)

subsection \<open>The match of the wrapping expression\<close>

lemma wrap_match_Some:
  assumes "wrap_match rest = Some k"
  shows "1 \<le> k" "k \<le> 72" "k < length rest" "10 \<notin> set (take k rest)" "is_space (rest ! k)"
proof -
  from assms have f: "find (\<lambda>k. k < length rest \<and> 10 \<notin> set (take k rest) \<and> is_space (rest ! k))
                (rev [1 ..< 73]) = Some k"
    by (simp add: wrap_match_def split: if_splits)
  then have "k \<in> set (rev [1 ..< 73])"
    unfolding find_Some_iff by (metis nth_mem)
  then show "1 \<le> k" "k \<le> 72" by simp_all
  from f show "k < length rest" "10 \<notin> set (take k rest)" "is_space (rest ! k)"
    unfolding find_Some_iff by blast+
qed

lemma wrap_match_None:
  assumes "wrap_match rest = None" "\<not> wrap_lookahead rest" "1 \<le> k" "k \<le> 72" "k < length rest"
    "10 \<notin> set rest"
  shows "\<not> is_space (rest ! k)"
proof -
  from assms(1,2) have "find (\<lambda>k. k < length rest \<and> 10 \<notin> set (take k rest) \<and> is_space (rest ! k))
                (rev [1 ..< 73]) = None"
    by (simp add: wrap_match_def)
  then have "\<not> (k < length rest \<and> 10 \<notin> set (take k rest) \<and> is_space (rest ! k))"
    unfolding find_None_iff using assms(3,4) by simp
  moreover from assms(6) have "10 \<notin> set (take k rest)" by (meson in_set_takeD)
  ultimately show ?thesis using assms(5) by simp
qed

lemma wrap_match_lookahead: "wrap_lookahead rest \<Longrightarrow> wrap_match rest = None"
  by (simp add: wrap_match_def)

lemma replace_wrap_Nil [simp]: "replace_wrap [] = []"
  by (subst replace_wrap.simps) simp

lemma replace_wrap_Some:
  "wrap_match rest = Some k \<Longrightarrow>
   replace_wrap rest = take k rest @ 10 # replace_wrap (drop (Suc k) rest)"
  using wrap_match_Some(3)[of rest k] by (subst replace_wrap.simps) auto

lemma replace_wrap_None:
  "rest \<noteq> [] \<Longrightarrow> wrap_match rest = None \<Longrightarrow> replace_wrap rest = hd rest # replace_wrap (tl rest)"
  by (subst replace_wrap.simps) simp

lemma replace_wrap_short:
  "length rest \<le> 72 \<Longrightarrow> 10 \<notin> set rest \<Longrightarrow> replace_wrap rest = rest"
proof (induction rest)
  case Nil
  then show ?case by simp
next
  case (Cons c cs)
  then have "wrap_lookahead (c # cs)" by (simp add: wrap_lookahead_def)
  then have "wrap_match (c # cs) = None" by (rule wrap_match_lookahead)
  with Cons show ?case by (simp add: replace_wrap_None)
qed

subsection \<open>Only whitespace is replaced\<close>

lemma replace_wrap_same_but_breaks:
  "list_all2 (\<lambda>a b. b = a \<or> (is_space a \<and> b = 10)) rest (replace_wrap rest)"
proof (induction rest rule: replace_wrap.induct)
  case (1 rest)
  show ?case
  proof (cases "rest = []")
    case True
    then show ?thesis by simp
  next
    case ne: False
    show ?thesis
    proof (cases "wrap_match rest")
      case None
      from "1.IH"(1)[OF ne None] ne None show ?thesis
        by (cases rest) (simp_all add: replace_wrap_None)
    next
      case (Some k)
      note m = wrap_match_Some[OF Some]
      have r: "rest = take k rest @ rest ! k # drop (Suc k) rest"
        by (rule id_take_nth_drop[OF m(3)])
      have "list_all2 (\<lambda>a b. b = a \<or> (is_space a \<and> b = 10)) (take k rest) (take k rest)"
        by (simp add: list_all2_same)
      moreover have "list_all2 (\<lambda>a b. b = a \<or> (is_space a \<and> b = 10))
          (rest ! k # drop (Suc k) rest) (10 # replace_wrap (drop (Suc k) rest))"
        using "1.IH"(2)[OF ne Some] m(5) by simp
      ultimately have "list_all2 (\<lambda>a b. b = a \<or> (is_space a \<and> b = 10))
          (take k rest @ rest ! k # drop (Suc k) rest)
          (take k rest @ 10 # replace_wrap (drop (Suc k) rest))"
        by (rule list_all2_appendI)
      with r show ?thesis by (simp add: replace_wrap_Some[OF Some])
    qed
  qed
qed

subsection \<open>The width of the lines\<close>

lemma replace_wrap_lines:
  assumes "only_spaces rest" "single_spaced rest"
  shows "(rest = [] \<or> \<not> is_space (hd rest) \<longrightarrow>
            (\<forall>l\<in>set (split_nl (replace_wrap rest)). line_ok l)) \<and>
         ((\<forall>c\<in>set (take 72 rest). \<not> is_space c) \<longrightarrow>
            (\<forall>c\<in>set (hd (split_nl (replace_wrap rest))). \<not> is_space c) \<and>
            (\<forall>l\<in>set (tl (split_nl (replace_wrap rest))). line_ok l))"
  using assms
proof (induction rest rule: replace_wrap.induct)
  case (1 rest)
  note os = "1.prems"(1) and ss = "1.prems"(2)
  from os have nl: "10 \<notin> set rest" by (rule only_spaces_no_nl)
  show ?case
  proof (cases "rest = []")
    case True
    then show ?thesis by (simp add: line_ok_def)
  next
    case ne: False
    show ?thesis
    proof (cases "wrap_match rest")
      case (Some k)
      note m = wrap_match_Some[OF Some]
      let ?r = "drop (Suc k) rest"
      have os': "only_spaces ?r" by (rule only_spaces_subset[OF os]) (rule set_drop_subset)
      have ss': "single_spaced ?r" by (rule single_spaced_drop[OF ss])
      have hd': "?r = [] \<or> \<not> is_space (hd ?r)"
      proof (cases "?r = []")
        case False
        then have l: "Suc k < length rest" by simp
        then have "hd ?r = rest ! Suc k" by (simp add: hd_drop_conv_nth)
        moreover from ss l m(5) have "\<not> is_space (rest ! Suc k)"
          unfolding single_spaced_def by blast
        ultimately show ?thesis by simp
      qed simp
      from "1.IH"(2)[OF ne Some os' ss'] hd'
      have others: "\<forall>l\<in>set (split_nl (replace_wrap ?r)). line_ok l" by blast
      have sp: "split_nl (replace_wrap rest) = take k rest # split_nl (replace_wrap ?r)"
        unfolding replace_wrap_Some[OF Some] by (rule split_nl_append[OF m(4)])
      have first: "line_ok (take k rest)" using m(2,3) by (simp add: line_ok_def min_def)
      have "\<forall>c\<in>set (take k rest). \<not> is_space c" if "\<forall>c\<in>set (take 72 rest). \<not> is_space c"
        using that m(2) by (meson set_take_subset_set_take subsetD)
      with sp first others show ?thesis by simp
    next
      case None
      from ne nl have h10: "hd rest \<noteq> 10" by (metis hd_in_set)
      have rw: "replace_wrap rest = hd rest # replace_wrap (tl rest)"
        by (rule replace_wrap_None[OF ne None])
      have sp: "split_nl (replace_wrap rest) =
          (hd rest # hd (split_nl (replace_wrap (tl rest)))) # tl (split_nl (replace_wrap (tl rest)))"
        unfolding rw by (rule split_nl_Cons[OF h10])
      show ?thesis
      proof (cases "wrap_lookahead rest")
        case True
        then have "length rest \<le> 72" by (simp add: wrap_lookahead_def)
        then have same: "replace_wrap rest = rest" using nl by (rule replace_wrap_short)
        have "split_nl rest = [rest]" by (rule split_nl_no_nl[OF nl])
        with same \<open>length rest \<le> 72\<close> show ?thesis by (simp add: line_ok_def)
      next
        case False
        moreover from ne have "1 \<le> length rest" by (cases rest) simp_all
        ultimately have long: "72 < length rest" using nl by (simp add: wrap_lookahead_def)
        have nosp: "\<forall>k. 1 \<le> k \<and> k \<le> 72 \<longrightarrow> \<not> is_space (rest ! k)"
          using wrap_match_None[OF None False _ _ _ nl] long by simp
        have t72: "\<forall>c\<in>set (take 72 (tl rest)). \<not> is_space c"
        proof
          fix c assume "c \<in> set (take 72 (tl rest))"
          then obtain i where i: "i < length (take 72 (tl rest))" "c = take 72 (tl rest) ! i"
            by (auto simp: in_set_conv_nth)
          then have "i < 72" by simp
          with i long have "c = rest ! Suc i" by (simp add: nth_tl)
          with nosp \<open>i < 72\<close> show "\<not> is_space c" by simp
        qed
        have os': "only_spaces (tl rest)"
          by (rule only_spaces_subset[OF os]) (metis list.set_sel(2) ne subsetI)
        have ss': "single_spaced (tl rest)" using single_spaced_drop[OF ss, of 1] by (simp add: drop_Suc)
        from "1.IH"(1)[OF ne None os' ss'] t72
        have ih: "\<forall>c\<in>set (hd (split_nl (replace_wrap (tl rest)))). \<not> is_space c"
          "\<forall>l\<in>set (tl (split_nl (replace_wrap (tl rest)))). line_ok l" by blast+
        have a: "\<forall>l\<in>set (split_nl (replace_wrap rest)). line_ok l" if "\<not> is_space (hd rest)"
          unfolding sp using ih that by (simp add: line_ok_def)
        have b: "(\<forall>c\<in>set (hd (split_nl (replace_wrap rest))). \<not> is_space c) \<and>
            (\<forall>l\<in>set (tl (split_nl (replace_wrap rest))). line_ok l)"
          if "\<forall>c\<in>set (take 72 rest). \<not> is_space c"
        proof -
          from ne have "hd rest \<in> set (take 72 rest)" by (cases rest) simp_all
          with that have "\<not> is_space (hd rest)" by blast
          with ih show ?thesis unfolding sp by simp
        qed
        from a b ne show ?thesis by blast
      qed
    qed
  qed
qed

text \<open>
  Claim C5. For every text, the output of the paragraph formatter is the collapsed and
  trimmed text in which some whitespace characters have become line feeds: both have the
  same length, and where they differ the input has whitespace and the output a line feed,
  so no token is ever split. Every line of the output has at most 72 characters, or it
  holds no whitespace at all, that is, it is one token, which is then longer than 72.
\<close>

theorem paragraph_lines_at_most_72:
  "list_all2 (\<lambda>a b. b = a \<or> (is_space a \<and> b = 10))
     (trim (replace_spaces text)) (formatParagraphChunk text) \<and>
   (\<forall>l\<in>set (split_nl (formatParagraphChunk text)).
      length l \<le> 72 \<or> (\<forall>c\<in>set l. \<not> is_space c))"
proof -
  let ?s = "trim (replace_spaces text)"
  have n: "only_spaces ?s" "single_spaced ?s" "?s = [] \<or> \<not> is_space (hd ?s)"
    by (rule trim_normal[OF only_spaces_replace_spaces single_spaced_replace_spaces])+
  from replace_wrap_lines[OF n(1,2)] n(3)
  have "\<forall>l\<in>set (split_nl (replace_wrap ?s)). line_ok l" by blast
  then show ?thesis
    using replace_wrap_same_but_breaks[of ?s]
    by (simp add: formatParagraphChunk_def line_ok_def)
qed

theorem paragraph_lines_at_most_72_witness:
  "list_all2 (\<lambda>a b. b = a \<or> (is_space a \<and> b = 10))
     (trim (replace_spaces (str ''  wrap   the body of the message '')))
     (formatParagraphChunk (str ''  wrap   the body of the message '')) \<and>
   list_all (\<lambda>l. length l \<le> 72 \<or> list_all (\<lambda>c. \<not> is_space c) l)
     (split_nl (formatParagraphChunk (str ''  wrap   the body of the message '')))"
  unfolding list_all_iff by (rule paragraph_lines_at_most_72)

end
